theory Spec2Isabelle
  imports Complex_Main "HOL-Library.Sublist"
begin

section \<open>Strings\<close>

text \<open>
  JavaScript strings are modelled as \<^typ>\<open>string\<close> (lists of characters) over ASCII text.
  \<open>toLowerCase\<close> maps \<open>A\<close>..\<open>Z\<close> to \<open>a\<close>..\<open>z\<close>; the regular-expression class
  \<open>\w\<close> is \<open>[A-Za-z0-9_]\<close> and \<open>\s\<close> is tab, line feed, vertical tab, form feed,
  carriage return and space. Characters outside ASCII are treated as symbols that are
  neither word characters nor whitespace and that lowercasing leaves alone.
\<close>

definition upperChars :: "string" where
  "upperChars = ''ABCDEFGHIJKLMNOPQRSTUVWXYZ''"

definition lowerChars :: "string" where
  "lowerChars = ''abcdefghijklmnopqrstuvwxyz''"

definition digitChars :: "string" where
  "digitChars = ''0123456789''"

definition spaceChars :: "string" where
  "spaceChars = [CHR 0x09, CHR 0x0A, CHR 0x0B, CHR 0x0C, CHR 0x0D, CHR '' '']"

definition isUpper :: "char \<Rightarrow> bool" where
  "isUpper c = (c \<in> set upperChars)"

definition toLowerChar :: "char \<Rightarrow> char" where
  "toLowerChar c = (case map_of (zip upperChars lowerChars) c of Some l \<Rightarrow> l | None \<Rightarrow> c)"

definition toLowerCase :: "string \<Rightarrow> string" where
  "toLowerCase s = map toLowerChar s"

definition isWordChar :: "char \<Rightarrow> bool" where
  "isWordChar c = (c \<in> set (lowerChars @ upperChars @ digitChars @ ''_''))"

definition isSpaceChar :: "char \<Rightarrow> bool" where
  "isSpaceChar c = (c \<in> set spaceChars)"

text \<open>\<open>s.startsWith(t)\<close>, \<open>s.indexOf(t)\<close> (\<open>None\<close> for \<open>-1\<close>) and \<open>s.includes(t)\<close>.\<close>

fun startsWith :: "string \<Rightarrow> string \<Rightarrow> bool" where
  "startsWith s [] = True"
| "startsWith [] (c # cs) = False"
| "startsWith (x # xs) (c # cs) = (x = c \<and> startsWith xs cs)"

fun indexOf :: "string \<Rightarrow> string \<Rightarrow> nat option" where
  "indexOf [] t = (if t = [] then Some 0 else None)"
| "indexOf (x # xs) t =
     (if startsWith (x # xs) t then Some 0 else map_option Suc (indexOf xs t))"

definition str_includes :: "string \<Rightarrow> string \<Rightarrow> bool" where
  "str_includes s t = (indexOf s t \<noteq> None)"

section \<open>Tokenizer (search API, \<open>tokenizeText\<close>)\<close>

text \<open>
  \<open>src/unnamed/part_001\<close>, lines 15 to 21:
  \<^verbatim>\<open>text.toLowerCase().replace(/[^\w\s]/g, ' ').split(/\s+/).filter(token => token.length > 1)\<close>

  \<open>replacePunctuation\<close> is the \<open>replace\<close> call. \<open>splitWhitespace\<close> is \<open>split(/\s+/)\<close>: the
  pieces between maximal whitespace runs, with an empty first piece when the string starts
  with whitespace, an empty last piece when it ends with whitespace, and the single piece
  \<open>''''\<close> for the empty string.
\<close>

definition replacePunctuation :: "string \<Rightarrow> string" where
  "replacePunctuation s = map (\<lambda>c. if isWordChar c \<or> isSpaceChar c then c else CHR '' '') s"

function splitFrom :: "string \<Rightarrow> string \<Rightarrow> string list" where
  "splitFrom cur [] = [cur]"
| "splitFrom cur (c # cs) =
     (if isSpaceChar c then cur # splitFrom [] (dropWhile isSpaceChar cs)
      else splitFrom (cur @ [c]) cs)"
  by pat_completeness auto
termination
  by (relation "measure (\<lambda>(cur, s). length s)")
     (auto simp: length_dropWhile_le less_Suc_eq_le)

definition splitWhitespace :: "string \<Rightarrow> string list" where
  "splitWhitespace s = splitFrom [] s"

definition tokenizeText :: "string \<Rightarrow> string list" where
  "tokenizeText s =
     filter (\<lambda>token. 1 < length token) (splitWhitespace (replacePunctuation (toLowerCase s)))"

text \<open>
  The specification's reading of a token: a maximal run of word characters of the
  lowercased text. \<open>wordRuns cur s\<close> collects the runs of \<open>s\<close>, \<open>cur\<close> being the run
  under construction.
\<close>

fun wordRuns :: "string \<Rightarrow> string \<Rightarrow> string list" where
  "wordRuns cur [] = (if cur = [] then [] else [cur])"
| "wordRuns cur (c # cs) =
     (if isWordChar c then wordRuns (cur @ [c]) cs
      else (if cur = [] then [] else [cur]) @ wordRuns [] cs)"

definition specTokens :: "string \<Rightarrow> string list" where
  "specTokens s = filter (\<lambda>token. 1 < length token) (wordRuns [] (toLowerCase s))"

section \<open>JavaScript objects used as dictionaries, and Sets\<close>

text \<open>
  The search index and the route cache are plain objects created by \<open>{}\<close>: a lookup
  \<open>obj[key]\<close> finds an own property, or else a property inherited from
  \<open>Object.prototype\<close>, or else \<open>undefined\<close>. Every inherited property is a function or an
  object, hence truthy. The own properties are a map.
\<close>

datatype 'a js_lookup = Own 'a | Inherited | Missing

definition objectPrototypeKeys :: "string list" where
  "objectPrototypeKeys =
     [''constructor'', ''__defineGetter__'', ''__defineSetter__'', ''hasOwnProperty'',
      ''__lookupGetter__'', ''__lookupSetter__'', ''isPrototypeOf'', ''propertyIsEnumerable'',
      ''toString'', ''valueOf'', ''__proto__'', ''toLocaleString'']"

definition js_get :: "(string \<rightharpoonup> 'a) \<Rightarrow> string \<Rightarrow> 'a js_lookup" where
  "js_get obj k =
     (case obj k of
        Some v \<Rightarrow> Own v
      | None \<Rightarrow> if k \<in> set objectPrototypeKeys then Inherited else Missing)"

text \<open>
  A \<open>Set\<close> of document ids iterates in insertion order, so it is a list without
  duplicates: \<open>add\<close> appends an absent element, \<open>delete\<close> removes the element.
  \<open>[...new Set(xs)]\<close> keeps the first occurrence of each element.
\<close>

definition set_add :: "string \<Rightarrow> string list \<Rightarrow> string list" where
  "set_add x xs = (if x \<in> set xs then xs else xs @ [x])"

definition set_delete :: "string \<Rightarrow> string list \<Rightarrow> string list" where
  "set_delete x xs = filter (\<lambda>y. y \<noteq> x) xs"

definition uniqueTokens :: "string list \<Rightarrow> string list" where
  "uniqueTokens xs = fold set_add xs []"

text \<open>
  A statement that throws leaves the mutations made so far in place: a completion carries
  the state either way.
\<close>

datatype js_error = TypeError string

datatype 'a completion = isNormal: Normal (stateOf: 'a) | Throw js_error (stateOf: 'a)

section \<open>Search index (search API)\<close>

text \<open>
  The enhanced search service is \<open>src/unnamed/part_001\<close>: \<open>buildSearchIndex\<close> (lines 73
  to 93), \<open>indexDocument\<close> (lines 96 to 144), \<open>incrementalIndexUpdate\<close> (lines 147 to
  182) and the \<open>/search\<close> handler (lines 185 to 292).

  A content item as the publishing API lists it. \<open>c_updatedAt\<close> is the time value of
  \<open>new Date(content.updatedAt)\<close> in milliseconds, \<open>None\<close> for an invalid date.
\<close>

record content =
  c_id :: string
  c_path :: string
  c_title :: string
  c_document_type :: string
  c_body :: string
  c_introduction :: string
  c_parts :: "(string \<times> string) list"
  c_state :: string
  c_updatedAt :: "int option"

record indexed_document =
  doc_id :: string
  doc_path :: string
  doc_title :: string
  doc_type :: string
  doc_text :: string
  doc_updatedAt :: "int option"

text \<open>
  The module state: \<open>searchIndex.documents\<close>, \<open>searchIndex.tokenizedIndex\<close>,
  \<open>lastIndexedTime\<close> (\<open>None\<close> for \<open>null\<close>) and the lines written by \<open>console.error\<close>.
\<close>

record search_state =
  documents :: "string \<rightharpoonup> indexed_document"
  tokenizedIndex :: "string \<rightharpoonup> string list"
  lastIndexedTime :: "int option"
  errorLog :: "string list"

definition initial_state :: "search_state" where
  "initial_state =
     \<lparr>documents = Map.empty, tokenizedIndex = Map.empty, lastIndexedTime = None, errorLog = []\<rparr>"

definition searchableText :: "content \<Rightarrow> string" where
  "searchableText c =
     (if c_document_type c = ''simple-page'' then c_title c @ '' '' @ c_body c
      else if c_document_type c = ''guide'' then
        fold (\<lambda>(part_title, part_body) acc. acc @ part_title @ '' '' @ part_body @ '' '')
          (c_parts c) (c_title c @ '' '' @ c_introduction c @ '' '')
      else c_title c @ '' '')"

text \<open>
  The removal loop of \<open>indexDocument\<close>: \<open>oldTokens.forEach\<close>. An inherited property is
  truthy and has no \<open>delete\<close> method, so the call throws.
\<close>

fun removeTokens ::
  "string \<Rightarrow> string list \<Rightarrow> (string \<rightharpoonup> string list) \<Rightarrow> (string \<rightharpoonup> string list) completion"
where
  "removeTokens i [] idx = Normal idx"
| "removeTokens i (token # rest) idx =
     (case js_get idx token of
        Missing \<Rightarrow> removeTokens i rest idx
      | Inherited \<Rightarrow>
          Throw (TypeError ''searchIndex.tokenizedIndex[token].delete is not a function'') idx
      | Own ids \<Rightarrow>
          (if set_delete i ids = [] then removeTokens i rest (idx(token := None))
           else removeTokens i rest (idx(token \<mapsto> set_delete i ids))))"

text \<open>
  The insertion loop: \<open>uniqueTokens.forEach\<close>. An inherited property is truthy, so no
  \<open>Set\<close> is created for it, and it has no \<open>add\<close> method: the call throws.
\<close>

fun addTokens ::
  "string \<Rightarrow> string list \<Rightarrow> (string \<rightharpoonup> string list) \<Rightarrow> (string \<rightharpoonup> string list) completion"
where
  "addTokens i [] idx = Normal idx"
| "addTokens i (token # rest) idx =
     (case js_get idx token of
        Missing \<Rightarrow> addTokens i rest (idx(token \<mapsto> set_add i []))
      | Own ids \<Rightarrow> addTokens i rest (idx(token \<mapsto> set_add i ids))
      | Inherited \<Rightarrow>
          Throw (TypeError ''searchIndex.tokenizedIndex[token].add is not a function'') idx)"

definition newDocument :: "content \<Rightarrow> indexed_document" where
  "newDocument c =
     \<lparr>doc_id = c_id c, doc_path = c_path c, doc_title = c_title c,
      doc_type = c_document_type c, doc_text = toLowerCase (searchableText c),
      doc_updatedAt = c_updatedAt c\<rparr>"

text \<open>
  \<open>indexDocument\<close>. When \<open>documents[content._id]\<close> is an inherited property, its \<open>text\<close> is
  \<open>undefined\<close> and \<open>tokenizeText\<close> throws before anything is changed.
\<close>

definition removeOld :: "content \<Rightarrow> search_state \<Rightarrow> search_state completion" where
  "removeOld c s =
     (case js_get (documents s) (c_id c) of
        Missing \<Rightarrow> Normal s
      | Inherited \<Rightarrow> Throw (TypeError ''Cannot read property 'toLowerCase' of undefined'') s
      | Own old \<Rightarrow>
          (case removeTokens (c_id c) (tokenizeText (doc_text old)) (tokenizedIndex s) of
             Normal idx \<Rightarrow> Normal (s\<lparr>tokenizedIndex := idx\<rparr>)
           | Throw e idx \<Rightarrow> Throw e (s\<lparr>tokenizedIndex := idx\<rparr>)))"

definition storeAndAdd :: "content \<Rightarrow> search_state \<Rightarrow> search_state completion" where
  "storeAndAdd c s =
     (let s1 = s\<lparr>documents := (documents s)(c_id c \<mapsto> newDocument c)\<rparr> in
      case addTokens (c_id c) (uniqueTokens (tokenizeText (searchableText c))) (tokenizedIndex s1) of
        Normal idx \<Rightarrow> Normal (s1\<lparr>tokenizedIndex := idx\<rparr>)
      | Throw e idx \<Rightarrow> Throw e (s1\<lparr>tokenizedIndex := idx\<rparr>))"

definition indexDocument :: "content \<Rightarrow> search_state \<Rightarrow> search_state completion" where
  "indexDocument c s =
     (case removeOld c s of
        Throw e s1 \<Rightarrow> Throw e s1
      | Normal s1 \<Rightarrow> storeAndAdd c s1)"

text \<open>\<open>contents.forEach(content => indexDocument(content))\<close>: the first throw ends the loop.\<close>

fun indexAll :: "content list \<Rightarrow> search_state \<Rightarrow> search_state completion" where
  "indexAll [] s = Normal s"
| "indexAll (c # cs) s =
     (case indexDocument c s of
        Normal s1 \<Rightarrow> indexAll cs s1
      | Throw e s1 \<Rightarrow> Throw e s1)"

text \<open>
  \<open>buildSearchIndex\<close>. \<open>fetched\<close> is the outcome of
  \<open>axios.get('http://publishing-api:3000/published-content')\<close>: \<open>Inl message\<close> when the
  request throws, \<open>Inr contents\<close> for the \<open>contents\<close> array of the response (the publishing
  API sends one with every successful answer). \<open>now\<close> is the clock read by \<open>new Date()\<close>.
  The part after the \<open>await\<close> runs to completion without interleaving.
\<close>

definition logError :: "string \<Rightarrow> js_error \<Rightarrow> search_state \<Rightarrow> search_state" where
  "logError label e s =
     (case e of TypeError msg \<Rightarrow> s\<lparr>errorLog := errorLog s @ [label @ '' '' @ msg]\<rparr>)"

definition buildSearchIndex :: "int \<Rightarrow> string + content list \<Rightarrow> search_state \<Rightarrow> search_state" where
  "buildSearchIndex now fetched s =
     (case fetched of
        Inl msg \<Rightarrow> s\<lparr>errorLog := errorLog s @ [''Failed to build search index: '' @ msg]\<rparr>
      | Inr contents \<Rightarrow>
          (case indexAll contents (s\<lparr>documents := Map.empty, tokenizedIndex := Map.empty\<rparr>) of
             Normal s1 \<Rightarrow> s1\<lparr>lastIndexedTime := Some now\<rparr>
           | Throw e s1 \<Rightarrow> logError ''Failed to build search index:'' e s1))"

text \<open>
  \<open>incrementalIndexUpdate\<close>. \<open>fetchedPublished\<close> is what the delegated full build would
  fetch, \<open>fetchedAll\<close> the outcome of \<open>axios.get('http://publishing-api:3000/content')\<close>.
\<close>

definition isUpdated :: "int \<Rightarrow> content \<Rightarrow> bool" where
  "isUpdated since c =
     ((case c_updatedAt c of None \<Rightarrow> False | Some t \<Rightarrow> since < t) \<and> c_state c = ''published'')"

definition incrementalIndexUpdate ::
  "int \<Rightarrow> string + content list \<Rightarrow> string + content list \<Rightarrow> search_state \<Rightarrow> search_state"
where
  "incrementalIndexUpdate now fetchedPublished fetchedAll s =
     (case lastIndexedTime s of
        None \<Rightarrow> buildSearchIndex now fetchedPublished s
      | Some since \<Rightarrow>
          (case fetchedAll of
             Inl msg \<Rightarrow> s\<lparr>errorLog := errorLog s @ [''Failed to update search index: '' @ msg]\<rparr>
           | Inr allContent \<Rightarrow>
               (let updatedContents = filter (isUpdated since) allContent in
                if updatedContents = [] then s
                else
                  (case indexAll updatedContents s of
                     Normal s1 \<Rightarrow> s1\<lparr>lastIndexedTime := Some now\<rparr>
                   | Throw e s1 \<Rightarrow> logError ''Failed to update search index:'' e s1))))"

section \<open>Search endpoint (search API, \<open>GET /search\<close>)\<close>

text \<open>
  \<open>generateSnippet\<close> (lines 23 to 70) and its string operations.
  \<open>text.substring(a, b)\<close> on natural numbers: both ends are clamped and swapped if needed.
\<close>

definition substring :: "string \<Rightarrow> nat \<Rightarrow> nat \<Rightarrow> string" where
  "substring s a b =
     (let a1 = min a (length s); b1 = min b (length s)
      in take (max a1 b1 - min a1 b1) (drop (min a1 b1) s))"

text \<open>\<open>while (startPos > 0 && text[startPos] !== ' ') startPos--\<close>; \<open>text[i]\<close> past the end is \<open>undefined\<close>.\<close>

fun backToSpace :: "string \<Rightarrow> nat \<Rightarrow> nat" where
  "backToSpace txt 0 = 0"
| "backToSpace txt (Suc n) =
     (if Suc n < length txt \<and> txt ! Suc n = CHR '' '' then Suc n else backToSpace txt n)"

text \<open>\<open>while (endPos < text.length && text[endPos] !== ' ') endPos++\<close>\<close>

function forwardToSpace :: "string \<Rightarrow> nat \<Rightarrow> nat" where
  "forwardToSpace txt endPos =
     (if endPos < length txt \<and> txt ! endPos \<noteq> CHR '' '' then forwardToSpace txt (Suc endPos)
      else endPos)"
  by pat_completeness auto
termination
  by (relation "measure (\<lambda>(txt, endPos). length txt - endPos)") auto

definition bestPosition :: "string \<Rightarrow> string list \<Rightarrow> nat option" where
  "bestPosition lowerText queryTokens =
     fold (\<lambda>token best.
             case indexOf lowerText token of
               None \<Rightarrow> best
             | Some position \<Rightarrow>
                 (case best of
                    None \<Rightarrow> Some position
                  | Some b \<Rightarrow> if position < b then Some position else best))
       queryTokens None"

definition generateSnippet :: "string \<Rightarrow> string list \<Rightarrow> string" where
  "generateSnippet txt queryTokens =
     (if txt = [] \<or> queryTokens = [] then substring txt 0 160 @ ''...''
      else
        (case bestPosition (toLowerCase txt) queryTokens of
           None \<Rightarrow> substring txt 0 160 @ ''...''
         | Some best \<Rightarrow>
             (let startPos = backToSpace txt (best - 60);
                  endPos = forwardToSpace txt (min (length txt) ((best - 60) + 160));
                  snippet = substring txt startPos endPos;
                  snippet1 = (if 0 < startPos then ''...'' @ snippet else snippet)
              in if endPos < length txt then snippet1 @ ''...'' else snippet1)))"

record search_result =
  r_id :: string
  r_title :: string
  r_path :: string
  r_type :: string
  r_snippet :: string
  r_updatedAt :: "int option"
  r_relevance :: nat

text \<open>
  The query parameters. \<open>page_param\<close> and \<open>pageSize_param\<close> are the values of
  \<open>parseInt(req.query.page)\<close> and \<open>parseInt(req.query.pageSize)\<close>, \<open>None\<close> for \<open>NaN\<close>;
  numbers are integers of any size (the rounding of numbers beyond 2^53 and the value
  \<open>Infinity\<close> are outside the model). \<open>q_param\<close> and \<open>type_param\<close> are string parameters.
\<close>

record search_request =
  q_param :: "string option"
  page_param :: "int option"
  pageSize_param :: "int option"
  type_param :: "string option"

record search_response =
  resp_results :: "search_result list"
  resp_total :: int
  resp_page :: int
  resp_pageSize :: int
  resp_totalPages :: int

text \<open>
  \<open>queryTokens.forEach\<close> building \<open>matchingIds\<close>. For an inherited property \<open>new Set(f)\<close>
  throws (a function is not iterable), and \<open>matchingDocsForToken.has\<close> is not a function;
  \<open>filter\<close> calls it only when there is an element to test.
\<close>

fun matchTokens ::
  "(string \<rightharpoonup> string list) \<Rightarrow> string list \<Rightarrow> bool \<Rightarrow> string list \<Rightarrow> js_error + string list"
where
  "matchTokens idx [] isFirstToken matchingIds = Inr matchingIds"
| "matchTokens idx (token # rest) isFirstToken matchingIds =
     (case js_get idx token of
        Own docs \<Rightarrow>
          if isFirstToken then matchTokens idx rest False docs
          else matchTokens idx rest False (filter (\<lambda>i. i \<in> set docs) matchingIds)
      | Missing \<Rightarrow>
          if isFirstToken then matchTokens idx rest False []
          else matchTokens idx rest False (filter (\<lambda>i. i \<in> set []) matchingIds)
      | Inherited \<Rightarrow>
          if isFirstToken then Inl (TypeError ''object is not iterable'')
          else if matchingIds = [] then matchTokens idx rest False []
          else Inl (TypeError ''matchingDocsForToken.has is not a function''))"

text \<open>The relevance loop over the query tokens; \<open>relevanceStep\<close> is its body.\<close>

definition relevanceStep :: "indexed_document \<Rightarrow> string \<Rightarrow> nat \<Rightarrow> nat" where
  "relevanceStep doc token relevance =
     (let r1 = (if str_includes (toLowerCase (doc_title doc)) token
                then (if startsWith (toLowerCase (doc_title doc)) token
                      then relevance + 3 + 2 else relevance + 3)
                else relevance)
      in if str_includes (doc_text doc) token then r1 + 1 else r1)"

definition relevanceOf :: "string list \<Rightarrow> indexed_document \<Rightarrow> nat" where
  "relevanceOf queryTokens doc = fold (relevanceStep doc) queryTokens 0"

text \<open>
  The relevance as the specification words it: the sum over the query tokens of 3 for a
  title occurrence, 2 more when the title starts with the token, 1 for an occurrence in
  the full text.
\<close>

definition specTokenScore :: "indexed_document \<Rightarrow> string \<Rightarrow> nat" where
  "specTokenScore doc token =
     (if str_includes (toLowerCase (doc_title doc)) token then 3 else 0) +
     (if startsWith (toLowerCase (doc_title doc)) token then 2 else 0) +
     (if str_includes (doc_text doc) token then 1 else 0)"

definition specRelevance :: "string list \<Rightarrow> indexed_document \<Rightarrow> nat" where
  "specRelevance queryTokens doc = sum_list (map (specTokenScore doc) queryTokens)"

text \<open>
  The callback of \<open>map\<close>: \<open>resultOf\<close> is the object it returns for a document, \<open>None\<close> is
  the \<open>null\<close> that the following \<open>filter\<close> drops.
  \<open>searchIndex.documents[id]\<close> that is \<open>undefined\<close> or an inherited property makes the
  property reads throw (with a type filter, an inherited property only fails the filter).
\<close>

definition resultOf :: "string list \<Rightarrow> indexed_document \<Rightarrow> search_result" where
  "resultOf queryTokens doc =
     \<lparr>r_id = doc_id doc, r_title = doc_title doc, r_path = doc_path doc, r_type = doc_type doc,
      r_snippet = generateSnippet (doc_text doc) queryTokens, r_updatedAt = doc_updatedAt doc,
      r_relevance = relevanceOf queryTokens doc\<rparr>"

definition scoreCandidate ::
  "search_state \<Rightarrow> string list \<Rightarrow> string option \<Rightarrow> string \<Rightarrow> js_error + search_result option"
where
  "scoreCandidate s queryTokens filterType i =
     (case js_get (documents s) i of
        Missing \<Rightarrow> Inl (TypeError ''Cannot read property of undefined'')
      | Inherited \<Rightarrow>
          (case filterType of
             Some t \<Rightarrow> Inr None
           | None \<Rightarrow> Inl (TypeError ''Cannot read property 'toLowerCase' of undefined''))
      | Own doc \<Rightarrow>
          if (case filterType of Some t \<Rightarrow> doc_type doc \<noteq> t | None \<Rightarrow> False) then Inr None
          else if relevanceOf queryTokens doc = 0 then Inr None
          else Inr (Some (resultOf queryTokens doc)))"

fun scoreAll ::
  "search_state \<Rightarrow> string list \<Rightarrow> string option \<Rightarrow> string list \<Rightarrow> js_error + search_result list"
where
  "scoreAll s queryTokens filterType [] = Inr []"
| "scoreAll s queryTokens filterType (i # ids) =
     (case scoreCandidate s queryTokens filterType i of
        Inl e \<Rightarrow> Inl e
      | Inr item \<Rightarrow>
          (case scoreAll s queryTokens filterType ids of
             Inl e \<Rightarrow> Inl e
           | Inr items \<Rightarrow> Inr ((case item of None \<Rightarrow> [] | Some r \<Rightarrow> [r]) @ items)))"

text \<open>
  \<open>.sort((a, b) => b.relevance - a.relevance)\<close>: the sort of Node's engine is stable, so it
  is the stable sort by descending relevance.
\<close>

definition sortByRelevance :: "search_result list \<Rightarrow> search_result list" where
  "sortByRelevance rs = sort_key (\<lambda>r. - int (r_relevance r)) rs"

definition rankedResults ::
  "search_state \<Rightarrow> string list \<Rightarrow> string option \<Rightarrow> js_error + search_result list"
where
  "rankedResults s queryTokens filterType =
     (case matchTokens (tokenizedIndex s) queryTokens True [] of
        Inl e \<Rightarrow> Inl e
      | Inr matchingIds \<Rightarrow>
          (case scoreAll s queryTokens filterType matchingIds of
             Inl e \<Rightarrow> Inl e
           | Inr items \<Rightarrow> Inr (sortByRelevance items)))"

text \<open>\<open>results.slice(start, stop)\<close> on integers: a negative index counts from the end.\<close>

definition js_slice :: "'a list \<Rightarrow> int \<Rightarrow> int \<Rightarrow> 'a list" where
  "js_slice xs start stop =
     (let len = int (length xs);
          k = (if start < 0 then max (len + start) 0 else min start len);
          final = (if stop < 0 then max (len + stop) 0 else min stop len)
      in take (nat (final - k)) (drop (nat k) xs))"

definition paginate :: "search_result list \<Rightarrow> int \<Rightarrow> int \<Rightarrow> search_response" where
  "paginate rs pg pgSize =
     (let startIndex = (pg - 1) * pgSize
      in \<lparr>resp_results = js_slice rs startIndex (startIndex + pgSize),
          resp_total = int (length rs), resp_page = pg, resp_pageSize = pgSize,
          resp_totalPages = \<lceil>real_of_int (int (length rs)) / real_of_int pgSize\<rceil>\<rparr>)"

definition emptyResponse :: "int \<Rightarrow> int \<Rightarrow> search_response" where
  "emptyResponse pg pgSize =
     \<lparr>resp_results = [], resp_total = 0, resp_page = pg, resp_pageSize = pgSize,
      resp_totalPages = 0\<rparr>"

text \<open>\<open>parseInt(x) || d\<close>: \<open>NaN\<close> and \<open>0\<close> are falsy.\<close>

definition orDefault :: "int option \<Rightarrow> int \<Rightarrow> int" where
  "orDefault p d = (case p of None \<Rightarrow> d | Some n \<Rightarrow> if n = 0 then d else n)"

definition queryOf :: "search_request \<Rightarrow> string" where
  "queryOf req = toLowerCase (case q_param req of None \<Rightarrow> [] | Some q \<Rightarrow> q)"

definition typeOf :: "search_request \<Rightarrow> string option" where
  "typeOf req = (case type_param req of None \<Rightarrow> None | Some t \<Rightarrow> if t = [] then None else Some t)"

text \<open>
  The handler. \<open>Inl\<close> is an exception escaping it, which the framework answers with a
  server error; \<open>Inr\<close> is the object passed to \<open>res.json\<close>.
\<close>

definition search :: "search_state \<Rightarrow> search_request \<Rightarrow> js_error + search_response" where
  "search s req =
     (let pg = orDefault (page_param req) 1; pgSize = orDefault (pageSize_param req) 10
      in if queryOf req = [] then Inr (emptyResponse pg pgSize)
         else if tokenizeText (queryOf req) = [] then Inr (emptyResponse pg pgSize)
         else
           (case rankedResults s (tokenizeText (queryOf req)) (typeOf req) of
              Inl e \<Rightarrow> Inl e
            | Inr rs \<Rightarrow> Inr (paginate rs pg pgSize)))"

text \<open>
  The ranked list as the specification words it. The candidates are the ids under the
  first query token that are under every other query token, in the order of the first
  token's set. Each candidate document that passes the type filter gets the result object
  with the score \<open>specRelevance\<close>; the list is sorted by descending score, documents of
  equal score staying in candidate order.
\<close>

definition specCandidates :: "(string \<rightharpoonup> string list) \<Rightarrow> string list \<Rightarrow> string list" where
  "specCandidates idx queryTokens =
     (case queryTokens of
        [] \<Rightarrow> []
      | t # rest \<Rightarrow>
          filter (\<lambda>i. \<forall>u \<in> set rest. i \<in> set (case idx u of None \<Rightarrow> [] | Some ids \<Rightarrow> ids))
            (case idx t of None \<Rightarrow> [] | Some ids \<Rightarrow> ids))"

definition typeMatches :: "string option \<Rightarrow> indexed_document \<Rightarrow> bool" where
  "typeMatches filterType doc = (case filterType of None \<Rightarrow> True | Some t \<Rightarrow> doc_type doc = t)"

definition specResult :: "string list \<Rightarrow> indexed_document \<Rightarrow> search_result" where
  "specResult queryTokens doc =
     \<lparr>r_id = doc_id doc, r_title = doc_title doc, r_path = doc_path doc, r_type = doc_type doc,
      r_snippet = generateSnippet (doc_text doc) queryTokens, r_updatedAt = doc_updatedAt doc,
      r_relevance = specRelevance queryTokens doc\<rparr>"

definition specRanked ::
  "search_state \<Rightarrow> string list \<Rightarrow> string option \<Rightarrow> search_result list"
where
  "specRanked s queryTokens filterType =
     sort_key (\<lambda>r. - int (r_relevance r))
       (map (specResult queryTokens)
          (filter (typeMatches filterType)
             (List.map_filter (documents s)
                (specCandidates (tokenizedIndex s) queryTokens))))"

section \<open>Router\<close>

text \<open>
  The router is \<open>src/router/index.js\<close>; \<open>src/unnamed/part_002\<close> is a rewritten version of it
  (same route cache, an admin proxy that re-encodes form bodies, a content handler without
  cache lookup). Both are modelled.

  The handlers call two libraries, \<open>axios\<close> and Express, whose behaviour decides what the
  client receives. What they do is written out below; the parts that depend on the
  library version or on tables that are not in the repository are parameters
  (\<open>libraries\<close>).
\<close>

datatype http_method = GET | POST | HEAD | OtherMethod string

datatype body_value = Scalar string | Array "string list"

datatype outbound_body = NoBody | FormParams "(string \<times> string) list" | ParsedBody "(string \<times> body_value) list"

text \<open>An upstream answer as it arrives: status, headers (names in lower case), body text.\<close>

record upstream_response =
  up_status :: nat
  up_headers :: "string \<rightharpoonup> string"
  up_data :: string

record outbound_request =
  out_method :: http_method
  out_url :: string
  out_headers :: "string \<rightharpoonup> string"
  out_body :: outbound_body

text \<open>
  The network answers a request with \<open>Inl message\<close> (no response: connection refused,
  timeout) or with an upstream response.
\<close>

type_synonym network = "outbound_request \<Rightarrow> string + upstream_response"

text \<open>
  A JavaScript value that \<open>response.data\<close> can hold: a string, a number (integers only;
  a body that is a non-integer number is outside the model), a boolean, \<open>null\<close>, or an
  object or array, kept as its \<open>JSON.stringify\<close> text.
\<close>

datatype js_value = JString string | JNumber int | JBoolean bool | JNull | JStructured string

text \<open>
  The library parameters.
  \<^item> \<open>jsonParse\<close> is \<open>JSON.parse\<close> on a response body, \<open>None\<close> when it throws.
  \<^item> \<open>parseTextResponses\<close> says whether \<open>axios\<close> also tries \<open>JSON.parse\<close> when the request
    sets \<open>responseType: 'text'\<close> (it does before version 1).
  \<^item> \<open>statusText\<close> is the table of status messages that \<open>res.send(number)\<close> reads.
  \<^item> \<open>maxRedirects\<close> is the number of redirects \<open>axios\<close> follows when the request does not
    set it, and \<open>redirectRequest\<close> builds the request that follows a redirect answer.
  \<^item> \<open>encodeURIComponent\<close> is the function of that name.
\<close>

record libraries =
  jsonParse :: "string \<Rightarrow> js_value option"
  parseTextResponses :: bool
  statusText :: "int \<Rightarrow> string option"
  maxRedirects :: nat
  redirectRequest :: "outbound_request \<Rightarrow> upstream_response \<Rightarrow> outbound_request"
  encodeURIComponent :: "string \<Rightarrow> string"

subsection \<open>axios\<close>

text \<open>
  No call in either router sets \<open>maxRedirects\<close>, so \<open>axios\<close> follows redirects: an answer
  with a status from 300 to 399 and a non-empty \<open>location\<close> header is not delivered; the
  request built from it is sent instead, until an answer is not a redirect or the limit is
  passed, which is an error.
\<close>

definition isRedirect :: "upstream_response \<Rightarrow> bool" where
  "isRedirect response =
     (300 \<le> up_status response \<and> up_status response < 400 \<and>
      (case up_headers response ''location'' of None \<Rightarrow> False | Some l \<Rightarrow> l \<noteq> []))"

fun followRedirects ::
  "libraries \<Rightarrow> network \<Rightarrow> nat \<Rightarrow> outbound_request \<Rightarrow> string + upstream_response"
where
  "followRedirects lib net 0 request =
     (case net request of
        Inl msg \<Rightarrow> Inl msg
      | Inr response \<Rightarrow>
          if isRedirect response then Inl ''Maximum number of redirects exceeded''
          else Inr response)"
| "followRedirects lib net (Suc n) request =
     (case net request of
        Inl msg \<Rightarrow> Inl msg
      | Inr response \<Rightarrow>
          if isRedirect response
          then followRedirects lib net n (redirectRequest lib request response)
          else Inr response)"

text \<open>
  What the handler gets from \<open>axios\<close>: the final answer with \<open>data\<close> transformed. The
  promise is rejected (\<open>Inl\<close>) when there is no answer or when \<open>validateStatus\<close> refuses
  the final status; the default accepts 200 to 299.
\<close>

record axios_response =
  ax_status :: nat
  ax_headers :: "string \<rightharpoonup> string"
  ax_data :: js_value

definition axios ::
  "libraries \<Rightarrow> network \<Rightarrow> (nat \<Rightarrow> bool) \<Rightarrow> (string \<Rightarrow> js_value) \<Rightarrow> outbound_request \<Rightarrow>
   string + axios_response"
where
  "axios lib net validateStatus transformResponse request =
     (case followRedirects lib net (maxRedirects lib) request of
        Inl msg \<Rightarrow> Inl msg
      | Inr response \<Rightarrow>
          if validateStatus (up_status response)
          then Inr \<lparr>ax_status = up_status response, ax_headers = up_headers response,
                    ax_data = transformResponse (up_data response)\<rparr>
          else Inl ''Request failed with status code'')"

text \<open>
  The default \<open>transformResponse\<close> replaces a body by its \<open>JSON.parse\<close> value when it
  parses. With \<open>responseType: 'text'\<close> that depends on the version. The rewritten content
  handler passes the identity.
\<close>

definition defaultTransform :: "libraries \<Rightarrow> string \<Rightarrow> js_value" where
  "defaultTransform lib body = (case jsonParse lib body of None \<Rightarrow> JString body | Some v \<Rightarrow> v)"


definition defaultValidateStatus :: "nat \<Rightarrow> bool" where
  "defaultValidateStatus status = (200 \<le> status \<and> status < 300)"

definition getRequest :: "string \<Rightarrow> outbound_request" where
  "getRequest url = \<lparr>out_method = GET, out_url = url, out_headers = Map.empty, out_body = NoBody\<rparr>"

definition axiosGet :: "libraries \<Rightarrow> network \<Rightarrow> string \<Rightarrow> string + axios_response" where
  "axiosGet lib net url = axios lib net defaultValidateStatus (defaultTransform lib) (getRequest url)"

subsection \<open>Express: the request and \<open>res.send\<close>\<close>

text \<open>
  The incoming request. \<open>req_validatorsMatch\<close> is the outcome of comparing the request's
  \<open>If-None-Match\<close> and \<open>If-Modified-Since\<close> headers with the response's \<open>ETag\<close> and
  \<open>Last-Modified\<close> when the response is sent (the comparison behind \<open>req.fresh\<close>).

  The response as the handler leaves it: the status, the headers it sets with
  \<open>res.setHeader\<close>, and the body written (\<open>None\<close> when the response is ended without one).
  The headers that \<open>res.send\<close> adds or adjusts itself (\<open>Content-Type\<close>, \<open>Content-Length\<close>,
  \<open>ETag\<close>) are not modelled.
\<close>

record request =
  req_method :: http_method
  req_originalUrl :: string
  req_headers :: "string \<rightharpoonup> string"
  req_body :: "(string \<times> body_value) list"
  req_validatorsMatch :: bool

record client_response =
  res_status :: nat
  res_headers :: "string \<rightharpoonup> string"
  res_body :: "string option"

text \<open>The status written to the wire is the status code converted to a 32-bit integer.\<close>

definition toInt32 :: "int \<Rightarrow> int" where
  "toInt32 n = (n + 2147483648) mod 4294967296 - 2147483648"

text \<open>
  The last part of \<open>res.send\<close>, with the status code and the chunk decided: a fresh GET or
  HEAD request turns a status from 200 to 299 into 304; a 204 or 304 gets an empty body; a
  HEAD request gets none; writing the head throws (\<open>None\<close>) for a status outside 100 to
  999.
\<close>

definition finishSend ::
  "request \<Rightarrow> int \<Rightarrow> (string \<rightharpoonup> string) \<Rightarrow> string option \<Rightarrow> client_response option"
where
  "finishSend req status hdrs chunk =
     (let fresh = ((req_method req = GET \<or> req_method req = HEAD) \<and>
                   ((200 \<le> status \<and> status < 300) \<or> status = 304) \<and> req_validatorsMatch req);
          status1 = (if fresh then 304 else status);
          chunk1 = (if status1 = 204 \<or> status1 = 304 then Some [] else chunk);
          body = (if req_method req = HEAD then None else chunk1)
      in if 100 \<le> toInt32 status1 \<and> toInt32 status1 \<le> 999
         then Some \<lparr>res_status = nat (toInt32 status1), res_headers = hdrs, res_body = body\<rparr>
         else None)"

text \<open>
  \<open>res.send(value)\<close> with the status set so far. A number is taken as the status code
  and the body becomes its status message; \<open>null\<close> becomes the empty string; a boolean,
  an object and an array are sent as JSON text.
\<close>

definition expressSend ::
  "libraries \<Rightarrow> request \<Rightarrow> nat \<Rightarrow> (string \<rightharpoonup> string) \<Rightarrow> js_value \<Rightarrow> client_response option"
where
  "expressSend lib req status hdrs v =
     (case v of
        JString s \<Rightarrow> finishSend req (int status) hdrs (Some s)
      | JNumber n \<Rightarrow> finishSend req n hdrs (statusText lib n)
      | JBoolean b \<Rightarrow> finishSend req (int status) hdrs (Some (if b then ''true'' else ''false''))
      | JNull \<Rightarrow> finishSend req (int status) hdrs (Some [])
      | JStructured json \<Rightarrow> finishSend req (int status) hdrs (Some json))"

text \<open>
  \<open>res.status(code).send('message')\<close> of the \<open>catch\<close> blocks, for the codes 404 and 500:
  never fresh, never stripped, always a valid status.
\<close>

definition sendStatus :: "request \<Rightarrow> nat \<Rightarrow> (string \<rightharpoonup> string) \<Rightarrow> string \<Rightarrow> client_response" where
  "sendStatus req status hdrs body =
     \<lparr>res_status = status, res_headers = hdrs,
      res_body = (if req_method req = HEAD then None else Some body)\<rparr>"

subsection \<open>Route cache\<close>

text \<open>
  \<open>refreshRoutes\<close>, lines 13 to 34 of both files. \<open>routeCache\<close> is a plain object. \<open>routeCache[path] = entry\<close> creates an own property,
  except for the key \<open>__proto__\<close>, which replaces the object's prototype by the entry
  (itself a plain object). \<open>cachePrototype\<close> records that entry.
\<close>

record route_entry =
  contentId :: string
  documentType :: string

record router_state =
  routeCache :: "string \<rightharpoonup> route_entry"
  cachePrototype :: "route_entry option"
  routerErrorLog :: "string list"

definition setRoute :: "content \<Rightarrow> router_state \<Rightarrow> router_state" where
  "setRoute c st =
     (let entry = \<lparr>contentId = c_id c, documentType = c_document_type c\<rparr>
      in if c_path c = ''__proto__'' then st\<lparr>cachePrototype := Some entry\<rparr>
         else st\<lparr>routeCache := (routeCache st)(c_path c \<mapsto> entry)\<rparr>)"

definition refreshRoutes :: "string + content list \<Rightarrow> router_state \<Rightarrow> router_state" where
  "refreshRoutes fetched st =
     (case fetched of
        Inl msg \<Rightarrow> st\<lparr>routerErrorLog := routerErrorLog st @ [''Failed to refresh routes: '' @ msg]\<rparr>
      | Inr contents \<Rightarrow> fold setRoute contents (st\<lparr>routeCache := Map.empty\<rparr>))"

text \<open>The truthiness of \<open>routeCache[path]\<close>.\<close>

definition routePresent :: "router_state \<Rightarrow> string \<Rightarrow> bool" where
  "routePresent st path =
     (case routeCache st path of
        Some entry \<Rightarrow> True
      | None \<Rightarrow>
          path \<in> set objectPrototypeKeys \<or>
          (case cachePrototype st of
             None \<Rightarrow> False
           | Some entry \<Rightarrow>
               (path = ''contentId'' \<and> contentId entry \<noteq> []) \<or>
               (path = ''documentType'' \<and> documentType entry \<noteq> [])))"

subsection \<open>Admin proxy middleware\<close>









subsection \<open>Content routes, \<open>app.get('/:path(*)')\<close>\<close>

text \<open>
  \<open>src/router/index.js\<close>, lines 98 to 140. \<open>path\<close> is \<open>req.params.path || ''\<close> and \<open>q\<close> is
  \<open>req.query.q\<close>. Each branch is a \<open>try\<close> around \<open>axios.get\<close> and
  \<open>res.send(response.data)\<close> with a \<open>catch\<close> that sends a fixed message; \<open>tryRelay\<close> is that
  shape, with the status set before the send (200 when the handler sets none) and the
  status and message of the \<open>catch\<close>.
\<close>

definition tryRelay ::
  "libraries \<Rightarrow> network \<Rightarrow> request \<Rightarrow> string \<Rightarrow> nat \<Rightarrow> nat \<Rightarrow> string \<Rightarrow> client_response"
where
  "tryRelay lib net req url status failStatus failMessage =
     (case axiosGet lib net url of
        Inl msg \<Rightarrow> sendStatus req failStatus Map.empty failMessage
      | Inr response \<Rightarrow>
          (case expressSend lib req status Map.empty (ax_data response) of
             Some res \<Rightarrow> res
           | None \<Rightarrow> sendStatus req failStatus Map.empty failMessage))"

definition contentRoute ::
  "libraries \<Rightarrow> router_state \<Rightarrow> network \<Rightarrow> request \<Rightarrow> string \<Rightarrow> string option \<Rightarrow> client_response"
where
  "contentRoute lib st net req path q =
     (if startsWith path ''search'' then
        tryRelay lib net req
          (''http://frontend:3001/search'' @
             (case q of None \<Rightarrow> [] | Some v \<Rightarrow> if v = [] then [] else ''?q='' @ encodeURIComponent lib v))
          200 500 ''Error processing search request''
      else if path = [] then
        tryRelay lib net req ''http://frontend:3001/'' 200 500 ''Error processing homepage request''
      else if \<not> routePresent st path then
        tryRelay lib net req ''http://frontend:3001/404'' 404 404 ''Page not found''
      else
        tryRelay lib net req (''http://frontend:3001/'' @ path) 200 500
          ''Error processing content request'')"

text \<open>
  The rewritten handler (\<open>src/unnamed/part_002\<close>, lines 131 to 178): no cache lookup, every
  status accepted and set on the response, the upstream content type copied, the body
  untransformed. \<open>url\<close> is \<open>req.url\<close>.
\<close>

definition queryString :: "string \<Rightarrow> string" where
  "queryString url = (case indexOf url ''?'' of None \<Rightarrow> [] | Some i \<Rightarrow> drop i url)"

definition contentRoute2 :: "libraries \<Rightarrow> network \<Rightarrow> request \<Rightarrow> string \<Rightarrow> string \<Rightarrow> client_response" where
  "contentRoute2 lib net req path url =
     (let targetUrl =
            (if path = [] then ''http://frontend:3001/''
             else if startsWith path ''search'' then ''http://frontend:3001/search'' @ queryString url
             else ''http://frontend:3001/'' @ path)
      in case axios lib net (\<lambda>status. True) JString (getRequest targetUrl) of
           Inl msg \<Rightarrow> sendStatus req 500 Map.empty ''Service communication error''
         | Inr response \<Rightarrow>
             (let hdrs = (case ax_headers response ''content-type'' of
                            None \<Rightarrow> Map.empty
                          | Some t \<Rightarrow> if t = [] then Map.empty else [''Content-Type'' \<mapsto> t])
              in case expressSend lib req (ax_status response) hdrs (ax_data response) of
                   Some res \<Rightarrow> res
                 | None \<Rightarrow> sendStatus req 500 hdrs ''Service communication error''))"

section \<open>Reachable states and the index invariant\<close>

text \<open>
  The states of the search service: the initial one, and those produced by the three
  operations that write the index. A call of \<open>indexDocument\<close> that throws still leaves a
  state behind.
\<close>

inductive reachable :: "search_state \<Rightarrow> bool" where
  start: "reachable initial_state"
| index: "reachable s \<Longrightarrow> reachable (stateOf (indexDocument c s))"
| build: "reachable s \<Longrightarrow> reachable (buildSearchIndex now fetched s)"
| update: "reachable s \<Longrightarrow> reachable (incrementalIndexUpdate now fetchedPublished fetchedAll s)"

text \<open>The ids under a token; a token without an own entry has none.\<close>

definition idsOf :: "(string \<rightharpoonup> string list) \<Rightarrow> string \<Rightarrow> string list" where
  "idsOf idx t = (case idx t of None \<Rightarrow> [] | Some ids \<Rightarrow> ids)"

text \<open>
  Every id under a token belongs to a stored document whose stored text is lowercased and
  has that token.
\<close>

definition indexSound :: "search_state \<Rightarrow> bool" where
  "indexSound s =
     (\<forall>t i. i \<in> set (idsOf (tokenizedIndex s) t) \<longrightarrow>
        (\<exists>doc. documents s i = Some doc \<and> t \<in> set (tokenizeText (doc_text doc)) \<and>
           toLowerCase (doc_text doc) = doc_text doc))"

text \<open>
  The invariant of the specification: an id is under a token exactly when the token is a
  token of the stored text of the document with that id.
\<close>

definition indexConsistent :: "search_state \<Rightarrow> bool" where
  "indexConsistent s =
     (\<forall>t j. (j \<in> set (idsOf (tokenizedIndex s) t)) =
        (\<exists>doc. documents s j = Some doc \<and> t \<in> set (tokenizeText (doc_text doc))))"

section \<open>Example data\<close>

definition simplePage :: "string \<Rightarrow> string \<Rightarrow> string \<Rightarrow> int \<Rightarrow> content" where
  "simplePage i title body updated =
     \<lparr>c_id = i, c_path = i, c_title = title, c_document_type = ''simple-page'', c_body = body,
      c_introduction = [], c_parts = [], c_state = ''published'', c_updatedAt = Some updated\<rparr>"

definition query :: "string \<Rightarrow> search_request" where
  "query q = \<lparr>q_param = Some q, page_param = None, pageSize_param = None, type_param = None\<rparr>"

text \<open>The ids of the results of a search, its total and its page count.\<close>

definition summary :: "js_error + search_response \<Rightarrow> js_error + string list \<times> int \<times> int" where
  "summary r = map_sum id (\<lambda>resp. (map r_id (resp_results resp), resp_total resp, resp_totalPages resp)) r"

definition appleIndex :: "search_state" where
  "appleIndex =
     stateOf (indexAll [simplePage ''d1'' ''apple'' ''pie'' 0, simplePage ''d2'' ''apple'' ''sauce'' 0]
       initial_state)"

definition indexedAt100 :: "search_state" where
  "indexedAt100 = appleIndex\<lparr>lastIndexedTime := Some 100\<rparr>"

definition draftPage :: "string \<Rightarrow> string \<Rightarrow> string \<Rightarrow> int \<Rightarrow> content" where
  "draftPage i title body updated = (simplePage i title body updated)\<lparr>c_state := ''draft''\<rparr>"

definition rankIndex :: "search_state" where
  "rankIndex =
     stateOf (indexAll [simplePage ''t2'' ''recipes'' ''apple crumble'' 0,
                        simplePage ''t1'' ''apple guide'' ''fruit'' 0] initial_state)"

definition constructorPage :: "content" where
  "constructorPage = simplePage ''d1'' ''constructor'' ''notes'' 0"

definition applePage :: "int \<Rightarrow> int \<Rightarrow> search_request" where
  "applePage pg ps = (query ''apple'')\<lparr>page_param := Some pg, pageSize_param := Some ps\<rparr>"

definition initial_router :: "router_state" where
  "initial_router = \<lparr>routeCache = Map.empty, cachePrototype = None, routerErrorLog = []\<rparr>"

definition aboutRoutes :: "router_state" where
  "aboutRoutes = refreshRoutes (Inr [simplePage ''about'' ''About'' ''us'' 0]) initial_router"

text \<open>
  Library parameters for the router examples. They agree with the libraries on what the
  examples use: the bodies \<open>404\<close> and \<open>500\<close> parse as numbers and the pages do not parse;
  the status messages of 404 and 500; a redirect to a path is followed by a GET to the
  frontend at that path, with the headers of the first request.
\<close>

definition exampleLib :: "libraries" where
  "exampleLib =
     \<lparr>jsonParse = (\<lambda>body. if body = ''404'' then Some (JNumber 404)
                         else if body = ''500'' then Some (JNumber 500) else None),
      parseTextResponses = True,
      statusText = (\<lambda>n. if n = 404 then Some ''Not Found''
                          else if n = 500 then Some ''Internal Server Error'' else None),
      maxRedirects = 21,
      redirectRequest = (\<lambda>request response.
         request\<lparr>out_method := GET,
                 out_url := ''http://frontend:3001'' @
                   (case up_headers response ''location'' of None \<Rightarrow> [] | Some l \<Rightarrow> l),
                 out_body := NoBody\<rparr>),
      encodeURIComponent = id\<rparr>"

text \<open>A frontend that answers every request with one status and body, without headers.\<close>

definition answering :: "nat \<Rightarrow> string \<Rightarrow> network" where
  "answering status body = (\<lambda>r. Inr \<lparr>up_status = status, up_headers = Map.empty, up_data = body\<rparr>)"



text \<open>
  A frontend that does what \<open>src/frontend/index.js\<close> does on the content pages when the
  only published page is \<open>about\<close>: that page is answered with 200, every other path,
  \<open>/404\<close> among them, with status 404 and the error page.
\<close>

definition contentFrontend :: "network" where
  "contentFrontend =
     (\<lambda>r. if out_url r = ''http://frontend:3001/about''
          then Inr \<lparr>up_status = 200, up_headers = Map.empty, up_data = ''<h1>About</h1>''\<rparr>
          else Inr \<lparr>up_status = 404, up_headers = Map.empty, up_data = ''<p>Page not found</p>''\<rparr>)"

text \<open>The status and body of an upstream answer, and of a client response.\<close>

definition answered :: "string + upstream_response \<Rightarrow> (nat \<times> string) option" where
  "answered r = (case r of Inl msg \<Rightarrow> None | Inr response \<Rightarrow> Some (up_status response, up_data response))"

definition received :: "client_response \<Rightarrow> nat \<times> string option" where
  "received res = (res_status res, res_body res)"



definition getPage :: "string \<Rightarrow> request" where
  "getPage url =
     \<lparr>req_method = GET, req_originalUrl = url, req_headers = Map.empty, req_body = [],
      req_validatorsMatch = False\<rparr>"

definition reindexed :: "search_state" where
  "reindexed =
     stateOf (indexAll [simplePage ''D'' ''alpha'' ''beta'' 0, simplePage ''D'' ''gamma'' ''gamma'' 1]
       initial_state)"

definition afterConstructor :: "search_state" where
  "afterConstructor = stateOf (indexDocument constructorPage initial_state)"

definition builtWithConstructor :: "search_state" where
  "builtWithConstructor =
     buildSearchIndex 5 (Inr [constructorPage, simplePage ''d2'' ''apple'' ''pie'' 0]) initial_state"

section \<open>Facts about characters and strings\<close>

lemma word_not_space: "isWordChar c \<Longrightarrow> \<not> isSpaceChar c"
  by (auto simp: isWordChar_def isSpaceChar_def lowerChars_def upperChars_def digitChars_def
      spaceChars_def)

lemma startsWith_prefix: "startsWith s t = prefix t s"
  by (induction s t rule: startsWith.induct) auto

lemma indexOf_sublist: "(indexOf s t \<noteq> None) = sublist t s"
proof (induction s)
  case Nil
  then show ?case by simp
next
  case (Cons x xs)
  then show ?case
    by (cases t) (auto simp: startsWith_prefix sublist_Cons_right)
qed

lemma str_includes_sublist: "str_includes s t = sublist t s"
  unfolding str_includes_def by (rule indexOf_sublist)

lemma toLowerChar_not_upper: "\<not> isUpper (toLowerChar c)"
  by (auto simp: toLowerChar_def isUpper_def upperChars_def lowerChars_def)

lemma toLowerChar_idem: "toLowerChar (toLowerChar c) = toLowerChar c"
  by (auto simp: toLowerChar_def upperChars_def lowerChars_def)

lemma toLowerCase_idem: "toLowerCase (toLowerCase s) = toLowerCase s"
  by (simp add: toLowerCase_def toLowerChar_idem)

lemma toLowerCase_append: "toLowerCase (a @ b) = toLowerCase a @ toLowerCase b"
  by (simp add: toLowerCase_def)

subsection \<open>Splitting against word runs\<close>

lemma splitFrom_skip_spaces:
  "filter (\<lambda>t. 1 < length t) (splitFrom [] (dropWhile isSpaceChar s)) =
   filter (\<lambda>t. 1 < length t) (splitFrom [] s)"
  by (cases s) auto

lemma split_replace_wordRuns:
  "filter (\<lambda>t. 1 < length t) (splitFrom cur (replacePunctuation s)) =
   filter (\<lambda>t. 1 < length t) (wordRuns cur s)"
proof (induction s arbitrary: cur)
  case Nil
  show ?case by (simp add: replacePunctuation_def)
next
  case (Cons c cs)
  show ?case
  proof (cases "isWordChar c")
    case True
    then have "\<not> isSpaceChar c" by (rule word_not_space)
    with True Cons.IH [of "cur @ [c]"] show ?thesis
      by (simp add: replacePunctuation_def)
  next
    case False
    have sp: "isSpaceChar (if isSpaceChar c then c else CHR '' '')"
      by (simp add: isSpaceChar_def spaceChars_def)
    have "filter (\<lambda>t. 1 < length t) (splitFrom cur (replacePunctuation (c # cs))) =
          filter (\<lambda>t. 1 < length t) [cur] @
          filter (\<lambda>t. 1 < length t) (splitFrom [] (dropWhile isSpaceChar (replacePunctuation cs)))"
      using False sp by (simp add: replacePunctuation_def)
    also have "\<dots> = filter (\<lambda>t. 1 < length t) [cur] @
          filter (\<lambda>t. 1 < length t) (wordRuns [] cs)"
      by (simp only: splitFrom_skip_spaces Cons.IH)
    also have "\<dots> = filter (\<lambda>t. 1 < length t) (wordRuns cur (c # cs))"
      using False by simp
    finally show ?thesis .
  qed
qed

lemma tokenizeText_specTokens: "tokenizeText s = specTokens s"
  unfolding tokenizeText_def specTokens_def splitWhitespace_def
  by (rule split_replace_wordRuns)

lemma wordRuns_chars:
  "list_all isWordChar cur \<Longrightarrow> list_all (list_all isWordChar) (wordRuns cur s)"
  by (induction s arbitrary: cur) auto

lemma wordRuns_lower:
  "list_all P cur \<Longrightarrow> list_all P s \<Longrightarrow> list_all (list_all P) (wordRuns cur s)"
  by (induction s arbitrary: cur) auto

lemma wordRuns_sublist: "p \<in> set (wordRuns cur s) \<Longrightarrow> sublist p (cur @ s)"
proof (induction s arbitrary: cur)
  case Nil
  then show ?case by (auto split: if_splits)
next
  case (Cons c cs)
  show ?case
  proof (cases "isWordChar c")
    case True
    with Cons.prems have "p \<in> set (wordRuns (cur @ [c]) cs)" by simp
    from Cons.IH [OF this] show ?thesis by simp
  next
    case False
    with Cons.prems consider "p = cur" | "p \<in> set (wordRuns [] cs)"
      by (auto split: if_splits)
    then show ?thesis
    proof cases
      case 1
      then show ?thesis by (simp add: sublist_append_rightI)
    next
      case 2
      from Cons.IH [OF this] have "sublist p cs" by simp
      moreover have "sublist cs ((cur @ [c]) @ cs)" by (rule sublist_append_leftI)
      ultimately have "sublist p ((cur @ [c]) @ cs)" by (rule sublist_order.order_trans)
      then show ?thesis by simp
    qed
  qed
qed

lemma token_in_lowercased_text:
  "token \<in> set (tokenizeText s) \<Longrightarrow> str_includes (toLowerCase s) token"
  using wordRuns_sublist [of token "[]" "toLowerCase s"]
  by (simp add: tokenizeText_specTokens specTokens_def str_includes_sublist)

lemma tokenizeText_lower: "tokenizeText (toLowerCase s) = tokenizeText s"
  by (simp add: tokenizeText_def toLowerCase_idem)

lemma tokens_are_lowercase_words:
  "list_all (\<lambda>t. 1 < length t \<and> list_all (\<lambda>c. isWordChar c \<and> \<not> isUpper c) t) (tokenizeText s)"
proof -
  have w: "list_all (list_all isWordChar) (wordRuns [] (toLowerCase s))"
    by (rule wordRuns_chars) simp
  have "list_all (\<lambda>c. \<not> isUpper c) (toLowerCase s)"
    by (simp add: toLowerCase_def list_all_iff toLowerChar_not_upper)
  then have l: "list_all (list_all (\<lambda>c. \<not> isUpper c)) (wordRuns [] (toLowerCase s))"
    by (intro wordRuns_lower) simp_all
  from w l show ?thesis
    unfolding tokenizeText_specTokens specTokens_def list_all_iff by auto
qed

subsection \<open>Indexing leaves the clock and the log alone\<close>

lemma removeOld_frame:
  "lastIndexedTime (stateOf (removeOld c s)) = lastIndexedTime s
   \<and> errorLog (stateOf (removeOld c s)) = errorLog s
   \<and> documents (stateOf (removeOld c s)) = documents s"
  by (simp add: removeOld_def split: js_lookup.splits completion.splits)

lemma storeAndAdd_frame:
  "lastIndexedTime (stateOf (storeAndAdd c s)) = lastIndexedTime s
   \<and> errorLog (stateOf (storeAndAdd c s)) = errorLog s"
  by (simp add: storeAndAdd_def Let_def split: completion.splits)

lemma indexDocument_frame:
  "lastIndexedTime (stateOf (indexDocument c s)) = lastIndexedTime s
   \<and> errorLog (stateOf (indexDocument c s)) = errorLog s"
proof (cases "removeOld c s")
  case (Normal s1)
  with removeOld_frame [of c s] storeAndAdd_frame [of c s1] show ?thesis
    by (simp add: indexDocument_def)
next
  case (Throw e s1)
  with removeOld_frame [of c s] show ?thesis
    by (simp add: indexDocument_def)
qed

lemma indexAll_frame:
  "lastIndexedTime (stateOf (indexAll cs s)) = lastIndexedTime s
   \<and> errorLog (stateOf (indexAll cs s)) = errorLog s"
proof (induction cs arbitrary: s)
  case Nil
  show ?case by simp
next
  case (Cons c cs)
  show ?case
  proof (cases "indexDocument c s")
    case (Normal s1)
    with Cons.IH [of s1] indexDocument_frame [of c s] show ?thesis by simp
  next
    case (Throw e s1)
    with indexDocument_frame [of c s] show ?thesis by simp
  qed
qed

subsection \<open>The index invariant\<close>

lemma idsOf_upd: "idsOf (idx(k \<mapsto> v)) t = (if t = k then v else idsOf idx t)"
  by (simp add: idsOf_def)

lemma idsOf_del: "idsOf (idx(k := None)) t = (if t = k then [] else idsOf idx t)"
  by (simp add: idsOf_def)

lemma js_get_Own: "js_get idx t = Own ids \<Longrightarrow> idsOf idx t = ids"
  by (auto simp: js_get_def idsOf_def split: option.splits if_splits)

lemma js_get_Missing: "js_get idx t = Missing \<Longrightarrow> idsOf idx t = []"
  by (auto simp: js_get_def idsOf_def split: option.splits if_splits)

lemma js_get_Inherited: "js_get idx t = Inherited \<Longrightarrow> idsOf idx t = []"
  by (auto simp: js_get_def idsOf_def split: option.splits if_splits)

lemma set_delete_set: "set (set_delete i ids) = set ids - {i}"
  by (auto simp: set_delete_def)

lemma set_add_set: "set (set_add i ids) = insert i (set ids)"
  by (auto simp: set_add_def)

lemma removeTokens_subset:
  "set (idsOf (stateOf (removeTokens i ts idx)) t) \<subseteq> set (idsOf idx t)"
proof (induction ts arbitrary: idx)
  case Nil
  show ?case by simp
next
  case (Cons token rest)
  show ?case
  proof (cases "js_get idx token")
    case (Own ids)
    note o = js_get_Own [OF Own]
    show ?thesis
    proof (cases "set_delete i ids = []")
      case True
      have "set (idsOf (stateOf (removeTokens i rest (idx(token := None)))) t)
            \<subseteq> set (idsOf (idx(token := None)) t)"
        by (rule Cons.IH)
      also have "\<dots> \<subseteq> set (idsOf idx t)"
        by (simp add: idsOf_del)
      finally show ?thesis using Own True by simp
    next
      case False
      have "set (idsOf (stateOf (removeTokens i rest (idx(token \<mapsto> set_delete i ids)))) t)
            \<subseteq> set (idsOf (idx(token \<mapsto> set_delete i ids)) t)"
        by (rule Cons.IH)
      also have "\<dots> \<subseteq> set (idsOf idx t)"
        using o by (auto simp: idsOf_upd set_delete_set)
      finally show ?thesis using Own False by simp
    qed
  next
    case Inherited
    then show ?thesis by simp
  next
    case Missing
    with Cons.IH [of idx] show ?thesis by simp
  qed
qed

lemma removeTokens_removed:
  "removeTokens i ts idx = Normal idx' \<Longrightarrow> t \<in> set ts \<Longrightarrow> i \<notin> set (idsOf idx' t)"
proof (induction ts arbitrary: idx)
  case Nil
  then show ?case by simp
next
  case (Cons token rest)
  have "\<exists>idx1. removeTokens i (token # rest) idx = removeTokens i rest idx1
           \<and> i \<notin> set (idsOf idx1 token)"
  proof (cases "js_get idx token")
    case (Own ids)
    show ?thesis
    proof (cases "set_delete i ids = []")
      case True
      have "i \<notin> set (idsOf (idx(token := None)) token)" by (simp add: idsOf_del)
      with Own True show ?thesis by auto
    next
      case False
      have "i \<notin> set (idsOf (idx(token \<mapsto> set_delete i ids)) token)"
        by (simp add: idsOf_upd set_delete_set)
      with Own False show ?thesis by auto
    qed
  next
    case Inherited
    with Cons.prems show ?thesis by simp
  next
    case Missing
    from js_get_Missing [OF Missing] have "i \<notin> set (idsOf idx token)" by simp
    with Missing show ?thesis by auto
  qed
  then obtain idx1 where step: "removeTokens i (token # rest) idx = removeTokens i rest idx1"
    and here: "i \<notin> set (idsOf idx1 token)" by blast
  from step Cons.prems have n: "removeTokens i rest idx1 = Normal idx'" by simp
  show ?case
  proof (cases "t = token")
    case True
    from removeTokens_subset [of i rest idx1 t] n have "set (idsOf idx' t) \<subseteq> set (idsOf idx1 t)"
      by simp
    with here True show ?thesis by auto
  next
    case False
    with Cons.prems have "t \<in> set rest" by simp
    from Cons.IH [OF n this] show ?thesis .
  qed
qed

lemma addTokens_bound:
  "j \<in> set (idsOf (stateOf (addTokens i ts idx)) t) \<Longrightarrow>
   j \<in> set (idsOf idx t) \<or> (j = i \<and> t \<in> set ts)"
proof (induction ts arbitrary: idx)
  case Nil
  then show ?case by simp
next
  case (Cons token rest)
  have "\<exists>v. stateOf (addTokens i (token # rest) idx) = idx \<or>
          (stateOf (addTokens i (token # rest) idx) = stateOf (addTokens i rest (idx(token \<mapsto> v)))
           \<and> set v = insert i (set (idsOf idx token)))"
  proof (cases "js_get idx token")
    case (Own ids)
    with js_get_Own [OF Own] show ?thesis by (auto simp: set_add_set)
  next
    case Inherited
    then show ?thesis by simp
  next
    case Missing
    with js_get_Missing [OF Missing] show ?thesis by (auto simp: set_add_set)
  qed
  then obtain v where
    "stateOf (addTokens i (token # rest) idx) = idx \<or>
          (stateOf (addTokens i (token # rest) idx) = stateOf (addTokens i rest (idx(token \<mapsto> v)))
           \<and> set v = insert i (set (idsOf idx token)))" by blast
  then show ?case
  proof
    assume "stateOf (addTokens i (token # rest) idx) = idx"
    with Cons.prems show ?thesis by simp
  next
    assume a: "stateOf (addTokens i (token # rest) idx) = stateOf (addTokens i rest (idx(token \<mapsto> v)))
           \<and> set v = insert i (set (idsOf idx token))"
    with Cons.prems have "j \<in> set (idsOf (stateOf (addTokens i rest (idx(token \<mapsto> v)))) t)"
      by simp
    from Cons.IH [OF this] have "j \<in> set (idsOf (idx(token \<mapsto> v)) t) \<or> j = i \<and> t \<in> set rest" .
    with a show ?thesis
      by (cases "t = token") (auto simp: idsOf_upd)
  qed
qed


lemma js_get_Own_map: "js_get m k = Own v \<Longrightarrow> m k = Some v"
  by (auto simp: js_get_def split: option.splits if_splits)

lemma js_get_not_Own_map: "js_get m k = Missing \<or> js_get m k = Inherited \<Longrightarrow> m k = None"
  by (auto simp: js_get_def split: option.splits if_splits)

lemma fold_set_add: "set (fold set_add xs acc) = set xs \<union> set acc"
  by (induction xs arbitrary: acc) (auto simp: set_add_set)

lemma uniqueTokens_set: "set (uniqueTokens xs) = set xs"
  by (simp add: uniqueTokens_def fold_set_add)

lemma indexSound_shrink:
  assumes "indexSound s"
    and "\<And>t. set (idsOf idx' t) \<subseteq> set (idsOf (tokenizedIndex s) t)"
  shows "indexSound (s\<lparr>tokenizedIndex := idx'\<rparr>)"
  using assms unfolding indexSound_def by fastforce

lemma removeOld_sound:
  assumes "indexSound s"
  shows "indexSound (stateOf (removeOld c s))"
    and "isNormal (removeOld c s) \<Longrightarrow> c_id c \<notin> set (idsOf (tokenizedIndex (stateOf (removeOld c s))) t)"
proof -
  let ?i = "c_id c"
  show "indexSound (stateOf (removeOld c s))"
  proof (cases "js_get (documents s) ?i")
    case (Own old)
    have "indexSound (s\<lparr>tokenizedIndex :=
            stateOf (removeTokens ?i (tokenizeText (doc_text old)) (tokenizedIndex s))\<rparr>)"
      using assms by (rule indexSound_shrink) (rule removeTokens_subset)
    with Own show ?thesis
      by (cases "removeTokens ?i (tokenizeText (doc_text old)) (tokenizedIndex s)")
        (simp_all add: removeOld_def)
  next
    case Inherited
    with assms show ?thesis by (simp add: removeOld_def)
  next
    case Missing
    with assms show ?thesis by (simp add: removeOld_def)
  qed
  show "c_id c \<notin> set (idsOf (tokenizedIndex (stateOf (removeOld c s))) t)"
    if n: "isNormal (removeOld c s)"
  proof (cases "js_get (documents s) ?i")
    case (Own old)
    let ?ts = "tokenizeText (doc_text old)"
    from Own have d: "documents s ?i = Some old" by (rule js_get_Own_map)
    from n Own obtain idx' where r: "removeTokens ?i ?ts (tokenizedIndex s) = Normal idx'"
      by (auto simp: removeOld_def split: completion.splits)
    with Own have st: "tokenizedIndex (stateOf (removeOld c s)) = idx'"
      by (simp add: removeOld_def)
    show ?thesis
    proof (cases "t \<in> set ?ts")
      case True
      from removeTokens_removed [OF r True] st show ?thesis by simp
    next
      case False
      with assms d have "?i \<notin> set (idsOf (tokenizedIndex s) t)"
        unfolding indexSound_def by fastforce
      moreover from removeTokens_subset [of ?i ?ts "tokenizedIndex s" t] r
      have "set (idsOf idx' t) \<subseteq> set (idsOf (tokenizedIndex s) t)" by simp
      ultimately show ?thesis using st by auto
    qed
  next
    case Inherited
    with n show ?thesis by (simp add: removeOld_def)
  next
    case Missing
    then have "documents s ?i = None" by (simp add: js_get_not_Own_map)
    with assms have "?i \<notin> set (idsOf (tokenizedIndex s) t)"
      unfolding indexSound_def by fastforce
    with Missing show ?thesis by (simp add: removeOld_def)
  qed
qed

lemma storeAndAdd_state:
  "documents (stateOf (storeAndAdd c s)) = (documents s)(c_id c \<mapsto> newDocument c)
   \<and> tokenizedIndex (stateOf (storeAndAdd c s)) =
       stateOf (addTokens (c_id c) (uniqueTokens (tokenizeText (searchableText c))) (tokenizedIndex s))"
  by (simp add: storeAndAdd_def Let_def split: completion.splits)

lemma storeAndAdd_sound:
  assumes "indexSound s"
    and fresh: "\<And>t. c_id c \<notin> set (idsOf (tokenizedIndex s) t)"
  shows "indexSound (stateOf (storeAndAdd c s))"
  unfolding indexSound_def
proof (intro allI impI)
  fix t j
  let ?s2 = "stateOf (storeAndAdd c s)"
  assume "j \<in> set (idsOf (tokenizedIndex ?s2) t)"
  then have "j \<in> set (idsOf (stateOf (addTokens (c_id c)
      (uniqueTokens (tokenizeText (searchableText c))) (tokenizedIndex s))) t)"
    by (simp add: storeAndAdd_state)
  from addTokens_bound [OF this]
  consider "j \<in> set (idsOf (tokenizedIndex s) t)"
    | "j = c_id c" "t \<in> set (tokenizeText (searchableText c))"
    by (auto simp: uniqueTokens_set)
  then show "\<exists>doc. documents ?s2 j = Some doc \<and> t \<in> set (tokenizeText (doc_text doc)) \<and>
           toLowerCase (doc_text doc) = doc_text doc"
  proof cases
    case 1
    with fresh [of t] have "j \<noteq> c_id c" by auto
    with 1 assms(1) show ?thesis
      unfolding indexSound_def by (simp add: storeAndAdd_state)
  next
    case 2
    then show ?thesis
      by (simp add: storeAndAdd_state newDocument_def tokenizeText_lower toLowerCase_idem)
  qed
qed

lemma indexDocument_sound:
  assumes "indexSound s"
  shows "indexSound (stateOf (indexDocument c s))"
proof (cases "removeOld c s")
  case (Normal s1)
  from removeOld_sound [OF assms, of c] Normal
  have "indexSound s1" and "\<And>t. c_id c \<notin> set (idsOf (tokenizedIndex s1) t)" by simp_all
  then have "indexSound (stateOf (storeAndAdd c s1))" by (rule storeAndAdd_sound)
  with Normal show ?thesis by (simp add: indexDocument_def)
next
  case (Throw e s1)
  with removeOld_sound(1) [OF assms, of c] show ?thesis by (simp add: indexDocument_def)
qed

lemma indexAll_sound: "indexSound s \<Longrightarrow> indexSound (stateOf (indexAll cs s))"
proof (induction cs arbitrary: s)
  case Nil
  then show ?case by simp
next
  case (Cons c cs)
  from indexDocument_sound [OF Cons.prems, of c]
  have s1: "indexSound (stateOf (indexDocument c s))" .
  show ?case
  proof (cases "indexDocument c s")
    case (Normal s1)
    with s1 Cons.IH [of s1] show ?thesis by simp
  next
    case (Throw e s1)
    with s1 show ?thesis by simp
  qed
qed

lemma indexSound_frame:
  "indexSound (s\<lparr>lastIndexedTime := t\<rparr>) = indexSound s"
  "indexSound (s\<lparr>errorLog := l\<rparr>) = indexSound s"
  by (simp_all add: indexSound_def)

lemma indexSound_cleared: "indexSound (s\<lparr>documents := Map.empty, tokenizedIndex := Map.empty\<rparr>)"
  by (simp add: indexSound_def idsOf_def)

lemma buildSearchIndex_sound: "indexSound s \<Longrightarrow> indexSound (buildSearchIndex now fetched s)"
proof (cases fetched)
  case (Inl msg)
  assume "indexSound s"
  with Inl show ?thesis by (simp add: buildSearchIndex_def indexSound_frame)
next
  case (Inr contents)
  let ?r = "indexAll contents (s\<lparr>documents := Map.empty, tokenizedIndex := Map.empty\<rparr>)"
  have "indexSound (stateOf ?r)"
    by (rule indexAll_sound) (rule indexSound_cleared)
  with Inr show ?thesis
    by (cases ?r) (auto simp: buildSearchIndex_def logError_def indexSound_frame split: js_error.splits)
qed

lemma incrementalIndexUpdate_sound:
  assumes "indexSound s"
  shows "indexSound (incrementalIndexUpdate now fp fa s)"
proof (cases "lastIndexedTime s")
  case None
  with buildSearchIndex_sound [OF assms] show ?thesis
    by (simp add: incrementalIndexUpdate_def)
next
  case (Some since)
  show ?thesis
  proof (cases fa)
    case (Inl msg)
    with Some assms show ?thesis
      by (simp add: incrementalIndexUpdate_def indexSound_frame)
  next
    case (Inr allContent)
    let ?r = "indexAll (filter (isUpdated since) allContent) s"
    from assms have "indexSound (stateOf ?r)" by (rule indexAll_sound)
    with Some Inr assms show ?thesis
      by (cases ?r)
        (auto simp: incrementalIndexUpdate_def Let_def logError_def indexSound_frame
          split: js_error.splits)
  qed
qed

lemma reachable_sound: "reachable s \<Longrightarrow> indexSound s"
proof (induction rule: reachable.induct)
  case start
  show ?case by (simp add: indexSound_def initial_state_def idsOf_def)
next
  case (index s c)
  then show ?case by (simp add: indexDocument_sound)
next
  case (build s now fetched)
  then show ?case by (simp add: buildSearchIndex_sound)
next
  case (update s now fetchedPublished fetchedAll)
  then show ?case by (simp add: incrementalIndexUpdate_sound)
qed

subsection \<open>Candidates, relevance, ranking and pagination\<close>

lemma matchTokens_rest:
  "matchTokens idx ts False ids = Inr out \<Longrightarrow>
   set out \<subseteq> set ids \<and> (\<forall>i \<in> set out. \<forall>t \<in> set ts. i \<in> set (idsOf idx t))"
proof (induction ts arbitrary: ids)
  case Nil
  then show ?case by simp
next
  case (Cons token rest)
  show ?case
  proof (cases "js_get idx token")
    case (Own docs)
    with Cons.prems have "matchTokens idx rest False (filter (\<lambda>i. i \<in> set docs) ids) = Inr out"
      by simp
    from Cons.IH [OF this] js_get_Own [OF Own] show ?thesis by auto
  next
    case Inherited
    with Cons.prems have "matchTokens idx rest False [] = Inr out"
      by (simp split: if_splits)
    from Cons.IH [OF this] show ?thesis by simp
  next
    case Missing
    with Cons.prems have "matchTokens idx rest False [] = Inr out" by simp
    from Cons.IH [OF this] show ?thesis by simp
  qed
qed

lemma matchTokens_first:
  assumes "matchTokens idx ts True ids0 = Inr out" and "ts \<noteq> []"
  shows "\<forall>i \<in> set out. \<forall>t \<in> set ts. i \<in> set (idsOf idx t)"
proof -
  from assms(2) obtain token rest where ts: "ts = token # rest" by (cases ts) auto
  show ?thesis
  proof (cases "js_get idx token")
    case (Own docs)
    with assms(1) ts have "matchTokens idx rest False docs = Inr out" by simp
    from matchTokens_rest [OF this] js_get_Own [OF Own] ts show ?thesis by auto
  next
    case Inherited
    with assms(1) ts show ?thesis by simp
  next
    case Missing
    with assms(1) ts have "matchTokens idx rest False [] = Inr out" by simp
    from matchTokens_rest [OF this] show ?thesis by simp
  qed
qed

lemma startsWith_includes: "startsWith s t \<Longrightarrow> str_includes s t"
  by (simp add: startsWith_prefix str_includes_sublist prefix_imp_sublist)

lemma relevance_fold:
  "fold (relevanceStep doc) ts acc = acc + sum_list (map (specTokenScore doc) ts)"
proof (induction ts arbitrary: acc)
  case Nil
  show ?case by simp
next
  case (Cons t ts)
  have "relevanceStep doc t acc = acc + specTokenScore doc t"
    using startsWith_includes [of "toLowerCase (doc_title doc)" t]
    by (auto simp: relevanceStep_def specTokenScore_def Let_def)
  then show ?case by (simp add: Cons.IH)
qed

lemma relevanceOf_spec: "relevanceOf ts doc = specRelevance ts doc"
  unfolding relevanceOf_def specRelevance_def by (simp add: relevance_fold)

lemma specRelevance_lower_bound:
  "\<forall>t \<in> set ts. str_includes (doc_text doc) t \<Longrightarrow> length ts \<le> specRelevance ts doc"
  unfolding specRelevance_def
  by (induction ts) (auto simp: specTokenScore_def)

lemma scoreAll_items:
  "scoreAll s ts ft ids = Inr items \<Longrightarrow>
   \<forall>r \<in> set items. \<exists>i \<in> set ids. \<exists>doc. documents s i = Some doc \<and> r = resultOf ts doc"
proof (induction ids arbitrary: items)
  case Nil
  then show ?case by simp
next
  case (Cons i ids)
  from Cons.prems obtain item rest where
    c: "scoreCandidate s ts ft i = Inr item" and r: "scoreAll s ts ft ids = Inr rest"
    and items: "items = (case item of None \<Rightarrow> [] | Some r \<Rightarrow> [r]) @ rest"
    by (auto split: sum.splits)
  from c have "\<forall>r. item = Some r \<longrightarrow> (\<exists>doc. documents s i = Some doc \<and> r = resultOf ts doc)"
    by (auto simp: scoreCandidate_def split: js_lookup.splits option.splits if_splits
        dest: js_get_Own_map)
  with Cons.IH [OF r] items show ?case
    by (auto split: option.splits)
qed

lemma sortByRelevance_set: "set (sortByRelevance rs) = set rs"
  by (simp add: sortByRelevance_def)

lemma sortByRelevance_sorted:
  "sorted_wrt (\<lambda>a b. r_relevance b \<le> r_relevance a) (sortByRelevance rs)"
proof -
  have "sorted (map (\<lambda>r. - int (r_relevance r)) (sortByRelevance rs))"
    unfolding sortByRelevance_def by (rule sorted_sort_key)
  then show ?thesis by (simp add: sorted_map)
qed

lemma js_slice_set: "set (js_slice xs a b) \<subseteq> set xs"
  unfolding js_slice_def Let_def
  by (meson order_trans set_drop_subset set_take_subset)

lemma js_slice_sorted: "sorted_wrt P xs \<Longrightarrow> sorted_wrt P (js_slice xs a b)"
  unfolding js_slice_def Let_def
  by (simp add: sorted_wrt_drop sorted_wrt_take)


lemma tokenizeText_Nil: "tokenizeText [] = []"
  by (simp add: tokenizeText_def toLowerCase_def replacePunctuation_def splitWhitespace_def)

lemma search_cases:
  assumes "search s req = Inr resp"
  shows "(tokenizeText (queryOf req) = [] \<and>
          resp = emptyResponse (orDefault (page_param req) 1) (orDefault (pageSize_param req) 10)) \<or>
         (\<exists>rs. tokenizeText (queryOf req) \<noteq> [] \<and>
               rankedResults s (tokenizeText (queryOf req)) (typeOf req) = Inr rs \<and>
               resp = paginate rs (orDefault (page_param req) 1) (orDefault (pageSize_param req) 10))"
  using assms
  by (auto simp: search_def Let_def tokenizeText_Nil split: if_splits sum.splits)

lemma rankedResults_items:
  assumes "rankedResults s ts ft = Inr rs" and "ts \<noteq> []"
  shows "\<forall>r \<in> set rs. \<exists>i doc. documents s i = Some doc \<and> r = resultOf ts doc \<and>
           (\<forall>t \<in> set ts. i \<in> set (idsOf (tokenizedIndex s) t))"
proof -
  from assms(1) obtain ids items where
    m: "matchTokens (tokenizedIndex s) ts True [] = Inr ids"
    and sc: "scoreAll s ts ft ids = Inr items" and rs: "rs = sortByRelevance items"
    by (auto simp: rankedResults_def split: sum.splits)
  from matchTokens_first [OF m assms(2)] scoreAll_items [OF sc] rs show ?thesis
    by (simp add: sortByRelevance_set) blast
qed

lemma rankedResults_sorted:
  "rankedResults s ts ft = Inr rs \<Longrightarrow> sorted_wrt (\<lambda>a b. r_relevance b \<le> r_relevance a) rs"
  by (auto simp: rankedResults_def sortByRelevance_sorted split: sum.splits)

lemma paginate_results_subset: "set (resp_results (paginate rs pg ps)) \<subseteq> set rs"
  by (simp add: paginate_def Let_def js_slice_set)

lemma sound_candidate_relevance:
  assumes "indexSound s" and "documents s i = Some doc"
    and "\<forall>t \<in> set ts. i \<in> set (idsOf (tokenizedIndex s) t)"
  shows "length ts \<le> relevanceOf ts doc"
proof -
  have "\<forall>t \<in> set ts. str_includes (doc_text doc) t"
  proof
    fix t assume "t \<in> set ts"
    with assms(3) have "i \<in> set (idsOf (tokenizedIndex s) t)" by simp
    with assms(1,2) have "t \<in> set (tokenizeText (doc_text doc))"
      and l: "toLowerCase (doc_text doc) = doc_text doc"
      unfolding indexSound_def by fastforce+
    from token_in_lowercased_text [OF this(1)] l show "str_includes (doc_text doc) t" by simp
  qed
  then show ?thesis
    unfolding relevanceOf_spec by (rule specRelevance_lower_bound)
qed

lemma search_relevance_bound:
  assumes "indexSound s" and "search s req = Inr resp" and "r \<in> set (resp_results resp)"
  shows "length (tokenizeText (queryOf req)) \<le> r_relevance r \<and> 0 < r_relevance r"
proof -
  let ?ts = "tokenizeText (queryOf req)"
  from search_cases [OF assms(2)] assms(3) obtain rs where
    ne: "?ts \<noteq> []" and rk: "rankedResults s ?ts (typeOf req) = Inr rs"
    and resp: "resp = paginate rs (orDefault (page_param req) 1) (orDefault (pageSize_param req) 10)"
    by (auto simp: emptyResponse_def)
  from resp assms(3) paginate_results_subset have "r \<in> set rs" by blast
  with rankedResults_items [OF rk ne] obtain i doc where
    "documents s i = Some doc" "r = resultOf ?ts doc"
    "\<forall>t \<in> set ?ts. i \<in> set (idsOf (tokenizedIndex s) t)" by blast
  with sound_candidate_relevance [OF assms(1), of i doc ?ts]
  have "length ?ts \<le> r_relevance r" by (simp add: resultOf_def)
  moreover from ne have "1 \<le> length ?ts" by (cases ?ts) simp_all
  ultimately show ?thesis by linarith
qed


subsection \<open>Pagination\<close>

lemma js_slice_length: "1 \<le> ps \<Longrightarrow> int (length (js_slice rs st (st + ps))) \<le> ps"
  by (auto simp: js_slice_def Let_def)

lemma js_slice_page:
  assumes "0 \<le> st" and "1 \<le> ps"
  shows "js_slice rs st (st + ps) = take (nat ps) (drop (nat st) rs)"
proof (cases "st \<le> int (length rs)")
  case True
  with assms have "js_slice rs st (st + ps) =
      take (nat (min (st + ps) (int (length rs)) - st)) (drop (nat st) rs)"
    by (simp add: js_slice_def Let_def min_def)
  also have "\<dots> = take (nat ps) (drop (nat st) rs)"
    using True assms by (cases "st + ps \<le> int (length rs)") (simp_all add: min_def)
  finally show ?thesis .
next
  case False
  with assms show ?thesis by (simp add: js_slice_def Let_def min_def)
qed

lemma ceiling_pages_cover:
  assumes "1 \<le> ps"
  shows "n \<le> \<lceil>real_of_int n / real_of_int ps\<rceil> * ps"
proof -
  from assms have p: "0 < real_of_int ps" by simp
  have "real_of_int n / real_of_int ps \<le> real_of_int \<lceil>real_of_int n / real_of_int ps\<rceil>"
    by (rule le_of_int_ceiling)
  then have "real_of_int n \<le> real_of_int \<lceil>real_of_int n / real_of_int ps\<rceil> * real_of_int ps"
    by (simp only: pos_divide_le_eq [OF p])
  then have "real_of_int n \<le> real_of_int (\<lceil>real_of_int n / real_of_int ps\<rceil> * ps)" by simp
  then show ?thesis by (simp only: of_int_le_iff)
qed

lemma js_slice_beyond:
  assumes "1 \<le> ps" and "\<lceil>real_of_int (int (length rs)) / real_of_int ps\<rceil> < pg"
  shows "js_slice rs ((pg - 1) * ps) ((pg - 1) * ps + ps) = []"
proof -
  let ?tp = "\<lceil>real_of_int (int (length rs)) / real_of_int ps\<rceil>"
  from assms have "?tp \<le> pg - 1" by simp
  with assms(1) have "?tp * ps \<le> (pg - 1) * ps" by (simp add: mult_right_mono)
  with ceiling_pages_cover [OF assms(1), of "int (length rs)"]
  have len: "int (length rs) \<le> (pg - 1) * ps" by linarith
  then have nn: "0 \<le> (pg - 1) * ps" by linarith
  from len have "length rs \<le> nat ((pg - 1) * ps)" by linarith
  then have "drop (nat ((pg - 1) * ps)) rs = []" by simp
  with js_slice_page [OF nn assms(1), of rs] show ?thesis by simp
qed

lemma paginate_fields:
  "resp_total (paginate rs pg ps) = int (length rs)
   \<and> resp_page (paginate rs pg ps) = pg \<and> resp_pageSize (paginate rs pg ps) = ps
   \<and> resp_totalPages (paginate rs pg ps) = \<lceil>real_of_int (int (length rs)) / real_of_int ps\<rceil>
   \<and> resp_results (paginate rs pg ps) = js_slice rs ((pg - 1) * ps) ((pg - 1) * ps + ps)"
  by (simp add: paginate_def Let_def)


subsection \<open>Ranking\<close>

lemma specRelevance_title_wins:
  assumes t: "t \<in> set ts"
    and a: "str_includes (toLowerCase (doc_title a)) t"
    and b: "\<not> str_includes (toLowerCase (doc_title b)) t"
    and others: "\<forall>u \<in> set ts. u \<noteq> t \<longrightarrow> specTokenScore a u = specTokenScore b u"
  shows "specRelevance ts b < specRelevance ts a"
proof -
  from b have "\<not> startsWith (toLowerCase (doc_title b)) t"
    using startsWith_includes by blast
  with a b have strict: "specTokenScore b t < specTokenScore a t"
    by (simp add: specTokenScore_def)
  with others have le: "\<And>u. u \<in> set ts \<Longrightarrow> specTokenScore b u \<le> specTokenScore a u"
    by (metis less_imp_le order_refl)
  from t obtain pre post where ts: "ts = pre @ t # post" by (meson split_list)
  have "sum_list (map (specTokenScore b) pre) \<le> sum_list (map (specTokenScore a) pre)"
    by (rule sum_list_mono) (simp add: le ts)
  moreover have "sum_list (map (specTokenScore b) post) \<le> sum_list (map (specTokenScore a) post)"
    by (rule sum_list_mono) (simp add: le ts)
  ultimately show ?thesis
    using strict by (simp add: specRelevance_def ts)
qed

lemma sorted_desc_index:
  assumes "sorted_wrt (\<lambda>a b. f b \<le> (f a :: nat)) rs"
    and "m < length rs" and "n < length rs" and "f (rs ! n) < f (rs ! m)"
  shows "m < n"
proof (rule ccontr)
  assume "\<not> m < n"
  then consider "n = m" | "n < m" by linarith
  then show False
  proof cases
    case 1
    with assms(4) show False by simp
  next
    case 2
    from sorted_wrt_nth_less [OF assms(1) 2 assms(2)] assms(4) show False by simp
  qed
qed

subsection \<open>Candidates of a query without inherited names\<close>

text \<open>
  Where no query token is the name of an inherited property, the candidates are the ids
  of the first token's set that lie in every other token's set, in the order of the first
  set.
\<close>

lemma matchTokens_rest_filter:
  "\<forall>u \<in> set ts. js_get idx u \<noteq> Inherited \<Longrightarrow>
   matchTokens idx ts False ids = Inr (filter (\<lambda>i. \<forall>u \<in> set ts. i \<in> set (idsOf idx u)) ids)"
proof (induction ts arbitrary: ids)
  case Nil
  show ?case by simp
next
  case (Cons token rest)
  from Cons.prems have r: "\<forall>u \<in> set rest. js_get idx u \<noteq> Inherited" by simp
  show ?case
  proof (cases "js_get idx token")
    case (Own docs)
    with Cons.IH [OF r, of "filter (\<lambda>i. i \<in> set docs) ids"] js_get_Own [OF Own]
    show ?thesis by (simp add: conj_commute)
  next
    case Inherited
    with Cons.prems show ?thesis by simp
  next
    case Missing
    with Cons.IH [OF r, of "[]"] js_get_Missing [OF Missing] show ?thesis by simp
  qed
qed

lemma matchTokens_intersection:
  assumes "\<forall>u \<in> set (t # ts). js_get idx u \<noteq> Inherited"
  shows "matchTokens idx (t # ts) True ids0 =
           Inr (filter (\<lambda>i. \<forall>u \<in> set ts. i \<in> set (idsOf idx u)) (idsOf idx t))"
proof -
  from assms have r: "\<forall>u \<in> set ts. js_get idx u \<noteq> Inherited" by simp
  show ?thesis
  proof (cases "js_get idx t")
    case (Own docs)
    with matchTokens_rest_filter [OF r, of docs] js_get_Own [OF Own] show ?thesis by simp
  next
    case Inherited
    with assms show ?thesis by simp
  next
    case Missing
    with matchTokens_rest_filter [OF r, of "[]"] js_get_Missing [OF Missing] show ?thesis by simp
  qed
qed

lemma matchTokens_candidate_set:
  assumes "\<forall>u \<in> set ts. js_get idx u \<noteq> Inherited" and "ts \<noteq> []"
  shows "\<exists>ids. matchTokens idx ts True [] = Inr ids \<and>
           set ids = (\<Inter>u \<in> set ts. set (idsOf idx u))"
proof -
  from assms(2) obtain t rest where ts: "ts = t # rest" by (cases ts) auto
  with assms(1) matchTokens_intersection [of t rest idx "[]"] show ?thesis by auto
qed

subsection \<open>The invariant in both directions, for calls that return\<close>

lemma removeTokens_others:
  "removeTokens i ts idx = Normal idx' \<Longrightarrow> j \<noteq> i \<Longrightarrow>
   (j \<in> set (idsOf idx' t)) = (j \<in> set (idsOf idx t))"
proof (induction ts arbitrary: idx)
  case Nil
  then show ?case by simp
next
  case (Cons token rest)
  have "\<exists>idx1. removeTokens i (token # rest) idx = removeTokens i rest idx1
           \<and> (j \<in> set (idsOf idx1 t)) = (j \<in> set (idsOf idx t))"
  proof (cases "js_get idx token")
    case (Own ids)
    note o = js_get_Own [OF Own]
    show ?thesis
    proof (cases "set_delete i ids = []")
      case True
      then have "set ids - {i} = {}" using set_delete_set [of i ids] by simp
      with Cons.prems(2) o have "(j \<in> set (idsOf (idx(token := None)) t)) = (j \<in> set (idsOf idx t))"
        by (auto simp: idsOf_del)
      with Own True show ?thesis by auto
    next
      case False
      from Cons.prems(2) o
      have "(j \<in> set (idsOf (idx(token \<mapsto> set_delete i ids)) t)) = (j \<in> set (idsOf idx t))"
        by (auto simp: idsOf_upd set_delete_set)
      with Own False show ?thesis by auto
    qed
  next
    case Inherited
    with Cons.prems show ?thesis by simp
  next
    case Missing
    then show ?thesis by auto
  qed
  then obtain idx1 where step: "removeTokens i (token # rest) idx = removeTokens i rest idx1"
    and same: "(j \<in> set (idsOf idx1 t)) = (j \<in> set (idsOf idx t))" by blast
  from step Cons.prems have "removeTokens i rest idx1 = Normal idx'" by simp
  from Cons.IH [OF this Cons.prems(2)] same show ?case by simp
qed

lemma addTokens_grows:
  "addTokens i ts idx = Normal idx' \<Longrightarrow>
   set (idsOf idx t) \<subseteq> set (idsOf idx' t) \<and> (t \<in> set ts \<longrightarrow> i \<in> set (idsOf idx' t))"
proof (induction ts arbitrary: idx)
  case Nil
  then show ?case by simp
next
  case (Cons token rest)
  have "\<exists>v. addTokens i (token # rest) idx = addTokens i rest (idx(token \<mapsto> v))
           \<and> set v = insert i (set (idsOf idx token))"
  proof (cases "js_get idx token")
    case (Own ids)
    with js_get_Own [OF Own] show ?thesis by (auto simp: set_add_set)
  next
    case Inherited
    with Cons.prems show ?thesis by simp
  next
    case Missing
    with js_get_Missing [OF Missing] show ?thesis by (auto simp: set_add_set)
  qed
  then obtain v where step: "addTokens i (token # rest) idx = addTokens i rest (idx(token \<mapsto> v))"
    and v: "set v = insert i (set (idsOf idx token))" by blast
  from step Cons.prems have "addTokens i rest (idx(token \<mapsto> v)) = Normal idx'" by simp
  then have "set (idsOf (idx(token \<mapsto> v)) t) \<subseteq> set (idsOf idx' t) \<and>
      (t \<in> set rest \<longrightarrow> i \<in> set (idsOf idx' t))"
    by (rule Cons.IH)
  then have ih: "set (idsOf (idx(token \<mapsto> v)) t) \<subseteq> set (idsOf idx' t)"
    "t \<in> set rest \<longrightarrow> i \<in> set (idsOf idx' t)" by blast+
  show ?case
  proof (cases "t = token")
    case True
    with ih v show ?thesis by (auto simp: idsOf_upd)
  next
    case False
    with ih show ?thesis by (auto simp: idsOf_upd)
  qed
qed

text \<open>
  A call of \<open>indexDocument\<close> that returns normally keeps the invariant of the
  specification, in both directions.
\<close>

lemma indexDocument_consistent:
  assumes inv: "\<forall>t j. (j \<in> set (idsOf (tokenizedIndex s) t)) =
                  (\<exists>doc. documents s j = Some doc \<and> t \<in> set (tokenizeText (doc_text doc)))"
    and n: "indexDocument c s = Normal s'"
  shows "\<forall>t j. (j \<in> set (idsOf (tokenizedIndex s') t)) =
                  (\<exists>doc. documents s' j = Some doc \<and> t \<in> set (tokenizeText (doc_text doc)))"
proof (intro allI)
  fix t j
  let ?i = "c_id c"
  let ?new = "tokenizeText (searchableText c)"
  from n obtain s1 where r: "removeOld c s = Normal s1" and a: "storeAndAdd c s1 = Normal s'"
    by (auto simp: indexDocument_def split: completion.splits)
  from removeOld_frame [of c s] r have d1: "documents s1 = documents s" by simp
  from a storeAndAdd_state [of c s1] d1
  have d': "documents s' = (documents s)(?i \<mapsto> newDocument c)" by simp
  from a obtain idx' where
    add: "addTokens ?i (uniqueTokens ?new) (tokenizedIndex s1) = Normal idx'"
    and i': "tokenizedIndex s' = idx'"
    by (auto simp: storeAndAdd_def Let_def split: completion.splits)
  have others: "(k \<in> set (idsOf (tokenizedIndex s1) u)) = (k \<in> set (idsOf (tokenizedIndex s) u))"
    if "k \<noteq> ?i" for k u
  proof (cases "js_get (documents s) ?i")
    case (Own old)
    with r obtain idx1 where
      "removeTokens ?i (tokenizeText (doc_text old)) (tokenizedIndex s) = Normal idx1"
      "tokenizedIndex s1 = idx1"
      by (auto simp: removeOld_def split: completion.splits)
    with removeTokens_others [OF this(1) that] show ?thesis by simp
  next
    case Inherited
    with r show ?thesis by (simp add: removeOld_def)
  next
    case Missing
    with r show ?thesis by (auto simp: removeOld_def)
  qed
  show "(j \<in> set (idsOf (tokenizedIndex s') t)) =
          (\<exists>doc. documents s' j = Some doc \<and> t \<in> set (tokenizeText (doc_text doc)))"
  proof (cases "j = ?i")
    case True
    have "(?i \<in> set (idsOf idx' t)) = (t \<in> set ?new)"
    proof
      assume "?i \<in> set (idsOf idx' t)"
      with add have "?i \<in> set (idsOf (stateOf (addTokens ?i (uniqueTokens ?new) (tokenizedIndex s1))) t)"
        by simp
      from addTokens_bound [OF this] have "?i \<in> set (idsOf (tokenizedIndex s1) t) \<or> t \<in> set ?new"
        by (auto simp: uniqueTokens_set)
      moreover have "?i \<notin> set (idsOf (tokenizedIndex s1) t)"
      proof -
        from inv have "indexIds": "\<And>u k. k \<in> set (idsOf (tokenizedIndex s) u) \<Longrightarrow>
            \<exists>doc. documents s k = Some doc \<and> u \<in> set (tokenizeText (doc_text doc))" by blast
        show ?thesis
        proof (cases "js_get (documents s) ?i")
          case (Own old)
          from Own have d: "documents s ?i = Some old" by (rule js_get_Own_map)
          from r Own obtain idx1 where
            rt: "removeTokens ?i (tokenizeText (doc_text old)) (tokenizedIndex s) = Normal idx1"
            and st: "tokenizedIndex s1 = idx1"
            by (auto simp: removeOld_def split: completion.splits)
          show ?thesis
          proof (cases "t \<in> set (tokenizeText (doc_text old))")
            case True
            from removeTokens_removed [OF rt True] st show ?thesis by simp
          next
            case False
            with indexIds [of ?i t] d have "?i \<notin> set (idsOf (tokenizedIndex s) t)" by auto
            moreover from removeTokens_subset [of ?i "tokenizeText (doc_text old)" "tokenizedIndex s" t] rt
            have "set (idsOf idx1 t) \<subseteq> set (idsOf (tokenizedIndex s) t)" by simp
            ultimately show ?thesis using st by auto
          qed
        next
          case Inherited
          with r show ?thesis by (simp add: removeOld_def)
        next
          case Missing
          then have "documents s ?i = None" by (simp add: js_get_not_Own_map)
          with indexIds [of ?i t] have "?i \<notin> set (idsOf (tokenizedIndex s) t)" by auto
          with Missing r show ?thesis by (auto simp: removeOld_def)
        qed
      qed
      ultimately show "t \<in> set ?new" by simp
    next
      assume "t \<in> set ?new"
      with addTokens_grows [OF add, of t] show "?i \<in> set (idsOf idx' t)"
        by (simp add: uniqueTokens_set)
    qed
    with True i' d' show ?thesis
      by (simp add: newDocument_def tokenizeText_lower)
  next
    case False
    have "(j \<in> set (idsOf idx' t)) = (j \<in> set (idsOf (tokenizedIndex s1) t))"
    proof
      assume "j \<in> set (idsOf idx' t)"
      with add have "j \<in> set (idsOf (stateOf (addTokens ?i (uniqueTokens ?new) (tokenizedIndex s1))) t)"
        by simp
      from addTokens_bound [OF this] False show "j \<in> set (idsOf (tokenizedIndex s1) t)" by simp
    next
      assume "j \<in> set (idsOf (tokenizedIndex s1) t)"
      with addTokens_grows [OF add, of t] show "j \<in> set (idsOf idx' t)" by auto
    qed
    with others [OF False, of t] inv False i' d' show ?thesis by simp
  qed
qed


lemma indexDocument_keeps_consistent:
  "indexConsistent s \<Longrightarrow> indexDocument c s = Normal s' \<Longrightarrow> indexConsistent s'"
  unfolding indexConsistent_def by (rule indexDocument_consistent)

lemma indexAll_keeps_consistent:
  "indexConsistent s \<Longrightarrow> indexAll cs s = Normal s' \<Longrightarrow> indexConsistent s'"
proof (induction cs arbitrary: s)
  case Nil
  then show ?case by simp
next
  case (Cons c cs)
  from Cons.prems(2) obtain s1 where 1: "indexDocument c s = Normal s1"
    and 2: "indexAll cs s1 = Normal s'"
    by (auto split: completion.splits)
  from Cons.prems(1) 1 have "indexConsistent s1" by (rule indexDocument_keeps_consistent)
  then show ?case using 2 by (rule Cons.IH)
qed

lemma initial_state_consistent: "indexConsistent initial_state"
  by (simp add: indexConsistent_def initial_state_def idsOf_def)

subsection \<open>The ranked list of a query without inherited names\<close>

lemma resultOf_spec: "resultOf ts doc = specResult ts doc"
  by (simp add: resultOf_def specResult_def relevanceOf_spec)

lemma specCandidates_idsOf:
  "specCandidates idx (t # rest) =
     filter (\<lambda>i. \<forall>u \<in> set rest. i \<in> set (idsOf idx u)) (idsOf idx t)"
  by (simp add: specCandidates_def idsOf_def)

lemma specCandidates_members:
  "i \<in> set (specCandidates idx ts) \<Longrightarrow> \<forall>t \<in> set ts. i \<in> set (idsOf idx t)"
  by (cases ts) (auto simp: specCandidates_idsOf)

lemma matchTokens_specCandidates:
  assumes "\<forall>u \<in> set ts. js_get idx u \<noteq> Inherited" and "ts \<noteq> []"
  shows "matchTokens idx ts True ids0 = Inr (specCandidates idx ts)"
proof -
  from assms(2) obtain t rest where ts: "ts = t # rest" by (cases ts) auto
  with assms(1) have "\<forall>u \<in> set (t # rest). js_get idx u \<noteq> Inherited" by simp
  from matchTokens_intersection [OF this] ts show ?thesis
    by (simp add: specCandidates_idsOf)
qed

lemma scoreAll_stored:
  assumes "\<forall>i \<in> set ids. \<exists>doc. documents s i = Some doc \<and> 0 < relevanceOf ts doc"
  shows "scoreAll s ts ft ids =
           Inr (map (resultOf ts) (filter (typeMatches ft) (List.map_filter (documents s) ids)))"
  using assms
proof (induction ids)
  case Nil
  show ?case by (simp add: map_filter_simps)
next
  case (Cons i ids)
  from Cons.prems obtain doc where d: "documents s i = Some doc" and r: "0 < relevanceOf ts doc"
    by auto
  from Cons.prems have "\<forall>i \<in> set ids. \<exists>doc. documents s i = Some doc \<and> 0 < relevanceOf ts doc"
    by simp
  then have ih: "scoreAll s ts ft ids =
           Inr (map (resultOf ts) (filter (typeMatches ft) (List.map_filter (documents s) ids)))"
    by (rule Cons.IH)
  from d r have c: "scoreCandidate s ts ft i =
           Inr (if typeMatches ft doc then Some (resultOf ts doc) else None)"
    by (auto simp: scoreCandidate_def js_get_def typeMatches_def split: option.splits)
  from d ih c show ?case
    by (simp add: map_filter_simps)
qed

lemma rankedResults_spec:
  assumes "indexSound s" and "ts \<noteq> []"
    and "\<forall>u \<in> set ts. js_get (tokenizedIndex s) u \<noteq> Inherited"
  shows "rankedResults s ts ft = Inr (specRanked s ts ft)"
proof -
  let ?ids = "specCandidates (tokenizedIndex s) ts"
  have m: "matchTokens (tokenizedIndex s) ts True [] = Inr ?ids"
    using assms(3,2) by (rule matchTokens_specCandidates)
  have "\<forall>i \<in> set ?ids. \<exists>doc. documents s i = Some doc \<and> 0 < relevanceOf ts doc"
  proof
    fix i assume "i \<in> set ?ids"
    then have all: "\<forall>t \<in> set ts. i \<in> set (idsOf (tokenizedIndex s) t)"
      by (rule specCandidates_members)
    from assms(2) obtain t where "t \<in> set ts" by (cases ts) auto
    with all have "i \<in> set (idsOf (tokenizedIndex s) t)" by simp
    with assms(1) obtain doc where d: "documents s i = Some doc"
      unfolding indexSound_def by blast
    from sound_candidate_relevance [OF assms(1) d all] assms(2)
    have "0 < relevanceOf ts doc" by (cases ts) auto
    with d show "\<exists>doc. documents s i = Some doc \<and> 0 < relevanceOf ts doc" by blast
  qed
  then have "scoreAll s ts ft ?ids =
           Inr (map (resultOf ts) (filter (typeMatches ft) (List.map_filter (documents s) ?ids)))"
    by (rule scoreAll_stored)
  moreover have "resultOf ts = specResult ts" by (rule ext) (rule resultOf_spec)
  ultimately show ?thesis using m
    by (simp add: rankedResults_def sortByRelevance_def specRanked_def)
qed

lemma specRanked_sorted:
  "sorted_wrt (\<lambda>a b. r_relevance b \<le> r_relevance a) (specRanked s ts ft)"
proof -
  have "sorted (map (\<lambda>r. - int (r_relevance r)) (specRanked s ts ft))"
    unfolding specRanked_def by (rule sorted_sort_key)
  then show ?thesis by (simp add: sorted_map)
qed

subsection \<open>Sending and redirects\<close>




lemma contentRoute_hit_rejected:
  assumes "routeCache st path = Some entry" and "path \<noteq> []" and "\<not> startsWith path ''search''"
    and "followRedirects lib net (maxRedirects lib) (getRequest (''http://frontend:3001/'' @ path)) =
         Inr response"
    and "\<not> (200 \<le> up_status response \<and> up_status response < 300)"
  shows "contentRoute lib st net req path q =
         sendStatus req 500 Map.empty ''Error processing content request''"
  using assms
  by (auto simp: contentRoute_def routePresent_def tryRelay_def axiosGet_def axios_def
      defaultValidateStatus_def)

lemma contentRoute_miss_rejected:
  assumes "\<not> routePresent st path" and "path \<noteq> []" and "\<not> startsWith path ''search''"
    and "followRedirects lib net (maxRedirects lib) (getRequest ''http://frontend:3001/404'') =
         Inr response"
    and "\<not> (200 \<le> up_status response \<and> up_status response < 300)"
  shows "contentRoute lib st net req path q = sendStatus req 404 Map.empty ''Page not found''"
  using assms
  by (auto simp: contentRoute_def tryRelay_def axiosGet_def axios_def defaultValidateStatus_def)

section \<open>Claims\<close>

text \<open>
  C9. \<open>tokenizeText\<close> lowercases its input, replaces every character that is neither a
  word character nor whitespace by a space, splits on whitespace runs and drops the pieces
  of length at most 1. Its result is the list of maximal word-character runs of the
  lowercased text that are longer than one character; every token is longer than one
  character and consists of word characters, none of them upper case; and
  \<open>tokenizeText("Foo, bar-baz!") = ["foo", "bar", "baz"]\<close>.
\<close>

theorem C9_tokenizeText:
  "tokenizeText s =
     filter (\<lambda>t. 1 < length t) (splitWhitespace (replacePunctuation (toLowerCase s)))
   \<and> tokenizeText s = filter (\<lambda>t. 1 < length t) (wordRuns [] (toLowerCase s))
   \<and> list_all (\<lambda>t. 1 < length t \<and> list_all (\<lambda>c. isWordChar c \<and> \<not> isUpper c) t) (tokenizeText s)
   \<and> tokenizeText ''Foo, bar-baz!'' = [''foo'', ''bar'', ''baz'']"
proof (intro conjI)
  show "tokenizeText s =
     filter (\<lambda>t. 1 < length t) (splitWhitespace (replacePunctuation (toLowerCase s)))"
    by (rule tokenizeText_def)
  show "tokenizeText s = filter (\<lambda>t. 1 < length t) (wordRuns [] (toLowerCase s))"
    unfolding tokenizeText_specTokens by (rule specTokens_def)
  show "list_all (\<lambda>t. 1 < length t \<and> list_all (\<lambda>c. isWordChar c \<and> \<not> isUpper c) t) (tokenizeText s)"
    by (rule tokens_are_lowercase_words)
  show "tokenizeText ''Foo, bar-baz!'' = [''foo'', ''bar'', ''baz'']"
    by code_simp
qed

text \<open>
  C7. When the fetch of the published content throws, \<open>buildSearchIndex\<close> leaves the
  documents, the token index and \<open>lastIndexedTime\<close> as they were, and \<open>refreshRoutes\<close>
  leaves the route cache as it was. In both cases the only effect is one line on the error
  log; both functions return normally (their result is a state, not an exception).
\<close>

theorem C7_fetch_failure_keeps_snapshot:
  "documents (buildSearchIndex now (Inl msg) s) = documents s
   \<and> tokenizedIndex (buildSearchIndex now (Inl msg) s) = tokenizedIndex s
   \<and> lastIndexedTime (buildSearchIndex now (Inl msg) s) = lastIndexedTime s
   \<and> errorLog (buildSearchIndex now (Inl msg) s) =
       errorLog s @ [''Failed to build search index: '' @ msg]
   \<and> routeCache (refreshRoutes (Inl msg) st) = routeCache st
   \<and> cachePrototype (refreshRoutes (Inl msg) st) = cachePrototype st
   \<and> routerErrorLog (refreshRoutes (Inl msg) st) =
       routerErrorLog st @ [''Failed to refresh routes: '' @ msg]"
  by (simp add: buildSearchIndex_def refreshRoutes_def)

text \<open>
  C2 (as amended). After a full build has run, \<open>incrementalIndexUpdate\<close> returns early,
  changing nothing, when no fetched document is both updated after \<open>lastIndexedTime\<close> and
  published; it sets \<open>lastIndexedTime\<close> to the current time when at least one document
  survives that filter and every \<open>indexDocument\<close> call completes. When the fetch fails or
  an \<open>indexDocument\<close> call throws, \<open>lastIndexedTime\<close> keeps its value.
\<close>

theorem C2_incremental_update_clock:
  assumes "lastIndexedTime s = Some since"
  shows "(filter (isUpdated since) allContent = [] \<longrightarrow>
            incrementalIndexUpdate now fp (Inr allContent) s = s)
       \<and> (filter (isUpdated since) allContent \<noteq> [] \<and>
            isNormal (indexAll (filter (isUpdated since) allContent) s) \<longrightarrow>
            lastIndexedTime (incrementalIndexUpdate now fp (Inr allContent) s) = Some now)
       \<and> (\<not> isNormal (indexAll (filter (isUpdated since) allContent) s) \<longrightarrow>
            lastIndexedTime (incrementalIndexUpdate now fp (Inr allContent) s) = Some since)
       \<and> lastIndexedTime (incrementalIndexUpdate now fp (Inl msg) s) = Some since"
proof -
  let ?cs = "filter (isUpdated since) allContent"
  have frame: "lastIndexedTime (stateOf (indexAll ?cs s)) = Some since"
    using indexAll_frame [of ?cs s] assms by simp
  show ?thesis
  proof (cases "indexAll ?cs s")
    case (Normal s1)
    with assms show ?thesis
      by (auto simp: incrementalIndexUpdate_def Let_def)
  next
    case (Throw e s1)
    with frame have "lastIndexedTime s1 = Some since" by simp
    with Throw assms show ?thesis
      by (cases e) (auto simp: incrementalIndexUpdate_def Let_def logError_def)
  qed
qed

theorem C2_incremental_update_witness:
  "lastIndexedTime indexedAt100 = Some 100
   \<and> lastIndexedTime
        (incrementalIndexUpdate 200 (Inr []) (Inr [simplePage ''d3'' ''pear'' ''tart'' 150])
           indexedAt100) = Some 200
   \<and> lastIndexedTime
        (incrementalIndexUpdate 200 (Inr []) (Inr [simplePage ''d3'' ''pear'' ''tart'' 50])
           indexedAt100) = Some 100"
proof -
  have t: "lastIndexedTime indexedAt100 = Some 100"
    by (simp add: indexedAt100_def)
  have n: "filter (isUpdated 100) [simplePage ''d3'' ''pear'' ''tart'' 150] \<noteq> [] \<and>
           isNormal (indexAll (filter (isUpdated 100) [simplePage ''d3'' ''pear'' ''tart'' 150])
             indexedAt100)"
    by code_simp
  have e: "filter (isUpdated 100) [simplePage ''d3'' ''pear'' ''tart'' 50] = []"
    by code_simp
  from C2_incremental_update_clock [OF t, of "[simplePage ''d3'' ''pear'' ''tart'' 150]" 200 "Inr []" "[]"] n
  have 1: "lastIndexedTime
        (incrementalIndexUpdate 200 (Inr []) (Inr [simplePage ''d3'' ''pear'' ''tart'' 150])
           indexedAt100) = Some 200"
    by blast
  from C2_incremental_update_clock [OF t, of "[simplePage ''d3'' ''pear'' ''tart'' 50]" 200 "Inr []" "[]"] e
  have "incrementalIndexUpdate 200 (Inr []) (Inr [simplePage ''d3'' ''pear'' ''tart'' 50])
           indexedAt100 = indexedAt100"
    by blast
  with t have 2: "lastIndexedTime
        (incrementalIndexUpdate 200 (Inr []) (Inr [simplePage ''d3'' ''pear'' ''tart'' 50])
           indexedAt100) = Some 100"
    by simp
  from t 1 2 show ?thesis by simp
qed

text \<open>
  The claim as stated fails: with \<open>lastIndexedTime\<close> at 100 and a successful fetch whose
  documents are an old published page and a newer draft, no document survives the filter
  and a run at time 200 leaves \<open>lastIndexedTime\<close> at 100.
\<close>

theorem C2_incremental_update_counterexample:
  "lastIndexedTime
     (incrementalIndexUpdate 200 (Inr [])
        (Inr [simplePage ''d3'' ''pear'' ''tart'' 50, draftPage ''d4'' ''plum'' ''jam'' 150])
        indexedAt100) \<noteq> Some 200"
  by code_simp

lemma indexAll_reachable: "reachable s \<Longrightarrow> reachable (stateOf (indexAll cs s))"
proof (induction cs arbitrary: s)
  case Nil
  then show ?case by simp
next
  case (Cons c cs)
  from Cons.prems have r: "reachable (stateOf (indexDocument c s))" by (rule reachable.index)
  show ?case
  proof (cases "indexDocument c s")
    case (Normal s1)
    with r Cons.IH [of s1] show ?thesis by simp
  next
    case (Throw e s1)
    with r show ?thesis by simp
  qed
qed

text \<open>
  C10. In every reachable state of the search service, every element of the results
  array returned by a search has relevance at least the number of query tokens, hence
  positive: a surviving candidate is in every query token's index set, an id in a token's
  set belongs to a stored document whose lowercased text contains the token, and each such
  occurrence adds 1.
\<close>

theorem C10_relevance_lower_bound:
  assumes "reachable s" and "search s req = Inr resp" and "r \<in> set (resp_results resp)"
  shows "length (tokenizeText (queryOf req)) \<le> r_relevance r \<and> 0 < r_relevance r"
  using reachable_sound [OF assms(1)] assms(2,3) by (rule search_relevance_bound)

theorem C10_relevance_witness:
  "reachable appleIndex
   \<and> summary (search appleIndex (query ''apple pie'')) = Inr ([''d1''], 1, 1)
   \<and> length (tokenizeText (queryOf (query ''apple pie''))) = 2
   \<and> 2 \<le> r_relevance (hd (resp_results (projr (search appleIndex (query ''apple pie'')))))"
proof -
  let ?resp = "projr (search appleIndex (query ''apple pie''))"
  have r: "reachable appleIndex"
    unfolding appleIndex_def by (rule indexAll_reachable) (rule reachable.start)
  have s: "search appleIndex (query ''apple pie'') = Inr ?resp" by code_simp
  have m: "hd (resp_results ?resp) \<in> set (resp_results ?resp)" by code_simp
  have l: "length (tokenizeText (queryOf (query ''apple pie''))) = 2" by code_simp
  have e: "summary (search appleIndex (query ''apple pie'')) = Inr ([''d1''], 1, 1)" by code_simp
  from C10_relevance_lower_bound [OF r s m] l r e show ?thesis by simp
qed

text \<open>
  C6 (as amended). A search answers with \<open>total\<close> equal to the length of the filtered,
  sorted list and \<open>totalPages = ceil(total / pageSize)\<close>. When \<open>pageSize\<close> is at least 1
  the results array has at most \<open>pageSize\<close> elements, and a page beyond \<open>totalPages\<close> gets
  an empty array; when moreover \<open>page\<close> is at least 1 the array is the slice
  \<open>[(page-1)*pageSize, page*pageSize)\<close> of that list.
\<close>

theorem C6_pagination:
  assumes "search s req = Inr resp"
  shows "resp_page resp = orDefault (page_param req) 1
       \<and> resp_pageSize resp = orDefault (pageSize_param req) 10
       \<and> resp_totalPages resp =
           \<lceil>real_of_int (resp_total resp) / real_of_int (resp_pageSize resp)\<rceil>
       \<and> (\<forall>rs. tokenizeText (queryOf req) \<noteq> [] \<and>
                rankedResults s (tokenizeText (queryOf req)) (typeOf req) = Inr rs \<longrightarrow>
                resp_total resp = int (length rs) \<and>
                (1 \<le> resp_pageSize resp \<and> 1 \<le> resp_page resp \<longrightarrow>
                   resp_results resp =
                     take (nat (resp_pageSize resp))
                       (drop (nat ((resp_page resp - 1) * resp_pageSize resp)) rs)))
       \<and> (1 \<le> resp_pageSize resp \<longrightarrow>
             int (length (resp_results resp)) \<le> resp_pageSize resp \<and>
             (resp_totalPages resp < resp_page resp \<longrightarrow> resp_results resp = []))"
proof -
  let ?pg = "orDefault (page_param req) 1"
  let ?ps = "orDefault (pageSize_param req) 10"
  from search_cases [OF assms]
  consider "resp = emptyResponse ?pg ?ps" "tokenizeText (queryOf req) = [] "
    | rs where "tokenizeText (queryOf req) \<noteq> []"
        "rankedResults s (tokenizeText (queryOf req)) (typeOf req) = Inr rs"
        "resp = paginate rs ?pg ?ps"
    by blast
  then show ?thesis
  proof cases
    case 1
    then show ?thesis by (simp add: emptyResponse_def)
  next
    case (2 rs)
    have page: "1 \<le> ?ps \<and> 1 \<le> ?pg \<longrightarrow>
        js_slice rs ((?pg - 1) * ?ps) ((?pg - 1) * ?ps + ?ps) =
        take (nat ?ps) (drop (nat ((?pg - 1) * ?ps)) rs)"
      by (simp add: js_slice_page)
    have len: "1 \<le> ?ps \<longrightarrow> int (length (js_slice rs ((?pg - 1) * ?ps) ((?pg - 1) * ?ps + ?ps))) \<le> ?ps"
      by (simp add: js_slice_length)
    have beyond: "1 \<le> ?ps \<and> \<lceil>real_of_int (int (length rs)) / real_of_int ?ps\<rceil> < ?pg \<longrightarrow>
        js_slice rs ((?pg - 1) * ?ps) ((?pg - 1) * ?ps + ?ps) = []"
      by (simp add: js_slice_beyond)
    from 2 page len beyond show ?thesis
      by (simp add: paginate_fields)
  qed
qed

theorem C6_pagination_witness:
  "search appleIndex (applePage 2 1) = Inr (projr (search appleIndex (applePage 2 1)))
   \<and> resp_pageSize (projr (search appleIndex (applePage 2 1))) = 1
   \<and> int (length (resp_results (projr (search appleIndex (applePage 2 1))))) \<le> 1
   \<and> summary (search appleIndex (applePage 2 1)) = Inr ([''d2''], 2, 2)
   \<and> summary (search appleIndex (applePage 3 1)) = Inr ([], 2, 2)"
proof -
  let ?resp = "projr (search appleIndex (applePage 2 1))"
  have s: "search appleIndex (applePage 2 1) = Inr ?resp" by code_simp
  have p: "resp_pageSize ?resp = 1" by code_simp
  have a: "summary (search appleIndex (applePage 2 1)) = Inr ([''d2''], 2, 2)" by code_simp
  have b: "summary (search appleIndex (applePage 3 1)) = Inr ([], 2, 2)" by code_simp
  from C6_pagination [OF s] p have "int (length (resp_results ?resp)) \<le> 1" by simp
  with s p a b show ?thesis by simp
qed

text \<open>
  The claim as stated fails for a negative page size: with two matching documents,
  \<open>page = 1\<close> and \<open>pageSize = -1\<close>, the handler returns one result (more than
  \<open>pageSize\<close>) and \<open>totalPages = -2\<close>, so page 1 lies beyond \<open>totalPages\<close> and is not empty.
\<close>

theorem C6_pagination_counterexample:
  "summary (search appleIndex (applePage 1 (- 1))) = Inr ([''d1''], 2, - 2)
   \<and> resp_pageSize (projr (search appleIndex (applePage 1 (- 1)))) = - 1
   \<and> \<not> int (length (resp_results (projr (search appleIndex (applePage 1 (- 1))))))
         \<le> resp_pageSize (projr (search appleIndex (applePage 1 (- 1))))
   \<and> resp_totalPages (projr (search appleIndex (applePage 1 (- 1))))
         < resp_page (projr (search appleIndex (applePage 1 (- 1))))
   \<and> resp_results (projr (search appleIndex (applePage 1 (- 1)))) \<noteq> []"
  by code_simp

text \<open>
  C1. Re-indexing works as the claim's example says: after indexing D with text
  \<open>alpha beta\<close> and then with a text whose only token is \<open>gamma\<close>, the entries for \<open>alpha\<close>
  and \<open>beta\<close> are gone, \<open>gamma\<close> holds D, and a search for \<open>alpha\<close> finds nothing. The
  invariant itself does not hold after every call: the token index is a plain object, and
  for the token \<open>constructor\<close> the lookup finds the inherited property, so
  \<open>indexDocument\<close> throws after it has stored the document. The stored text then has the
  token \<open>notes\<close>, under which the index has no id. A full build stops at such a document:
  the documents after it are not indexed and \<open>lastIndexedTime\<close> is not set.
\<close>

theorem C1_index_inconsistent_after_inherited_token:
  "tokenizedIndex reindexed ''alpha'' = None
   \<and> tokenizedIndex reindexed ''beta'' = None
   \<and> tokenizedIndex reindexed ''gamma'' = Some [''D'']
   \<and> summary (search reindexed (query ''alpha'')) = Inr ([], 0, 0)
   \<and> \<not> isNormal (indexDocument constructorPage initial_state)
   \<and> map_option doc_text (documents afterConstructor ''d1'') = Some ''constructor notes''
   \<and> ''notes'' \<in> set (tokenizeText ''constructor notes'')
   \<and> idsOf (tokenizedIndex afterConstructor) ''notes'' = []
   \<and> \<not> indexConsistent afterConstructor
   \<and> summary (search builtWithConstructor (query ''pie'')) = Inr ([], 0, 0)
   \<and> lastIndexedTime builtWithConstructor = None"
proof -
  have 1: "tokenizedIndex reindexed ''alpha'' = None" by code_simp
  have 2: "tokenizedIndex reindexed ''beta'' = None" by code_simp
  have 3: "tokenizedIndex reindexed ''gamma'' = Some [''D'']" by code_simp
  have 4: "summary (search reindexed (query ''alpha'')) = Inr ([], 0, 0)" by code_simp
  have 5: "\<not> isNormal (indexDocument constructorPage initial_state)" by code_simp
  have 6: "map_option doc_text (documents afterConstructor ''d1'') = Some ''constructor notes''"
    by code_simp
  have 7: "''notes'' \<in> set (tokenizeText ''constructor notes'')" by code_simp
  have 8: "idsOf (tokenizedIndex afterConstructor) ''notes'' = []" by code_simp
  have 9: "\<not> indexConsistent afterConstructor"
  proof
    assume c: "indexConsistent afterConstructor"
    from 6 obtain doc where "documents afterConstructor ''d1'' = Some doc"
      and "doc_text doc = ''constructor notes''" by auto
    with 7 c have "''d1'' \<in> set (idsOf (tokenizedIndex afterConstructor) ''notes'')"
      unfolding indexConsistent_def by metis
    with 8 show False by simp
  qed
  have 10: "summary (search builtWithConstructor (query ''pie'')) = Inr ([], 0, 0)" by code_simp
  have 11: "lastIndexedTime builtWithConstructor = None" by code_simp
  from 1 2 3 4 5 6 7 8 9 10 11 show ?thesis by blast
qed

text \<open>
  C4. On the index holding D1 (text \<open>apple pie\<close>) and D2 (text \<open>apple sauce\<close>) the three
  example queries match as the claim says. A query token that is the name of an inherited
  property does not act as the empty set: the token \<open>constructor\<close> has no entry in the
  index, and the handler throws, as the first token and as a later one.
\<close>

theorem C4_and_semantics_inherited_token:
  "summary (search appleIndex (query ''apple pie'')) = Inr ([''d1''], 1, 1)
   \<and> summary (search appleIndex (query ''apple'')) = Inr ([''d1'', ''d2''], 2, 1)
   \<and> summary (search appleIndex (query ''pie sauce'')) = Inr ([], 0, 0)
   \<and> summary (search appleIndex (query ''pear'')) = Inr ([], 0, 0)
   \<and> tokenizedIndex appleIndex ''constructor'' = None
   \<and> search appleIndex (query ''constructor'') = Inl (TypeError ''object is not iterable'')
   \<and> search appleIndex (query ''apple constructor'') =
       Inl (TypeError ''matchingDocsForToken.has is not a function'')"
  by code_simp




text \<open>
  C3. The claim does not hold of the handler in \<open>src/router/index.js\<close>. The route cache
  holds the page \<open>about\<close> and nothing else.
  \<^item> A miss: the frontend answers \<open>/404\<close> with status 404, as the frontend of this
    repository does, and the client gets a 404 with the text \<open>Page not found\<close> of the
    \<open>catch\<close>, not the frontend's not-found page.
  \<^item> A hit whose upstream answer is a 404 (the page was withdrawn after the last refresh of
    the cache): the client gets a 500 with a fixed message, not the upstream status and
    body. The rewritten handler of \<open>src/unnamed/part_002\<close> relays both.
  \<^item> A hit whose upstream answers 200 with the body \<open>404\<close>: the body is parsed as a
    number, which \<open>res.send\<close> takes as the status. A miss whose not-found page is the body
    \<open>500\<close> is answered with status 500.
  \<^item> The path \<open>constructor\<close> has no entry in the cache and is treated as present.
  When the frontend answers 200 with a page, a hit carries status and page.
\<close>

theorem C3_content_route_not_relayed:
  "routePresent aboutRoutes ''about'' \<and> \<not> routePresent aboutRoutes ''missing''
   \<and> answered (contentFrontend (getRequest ''http://frontend:3001/404'')) =
       Some (404, ''<p>Page not found</p>'')
   \<and> received (contentRoute exampleLib aboutRoutes contentFrontend (getPage ''/missing'') ''missing'' None) =
       (404, Some ''Page not found'')
   \<and> received (contentRoute exampleLib aboutRoutes (answering 404 ''<p>Page not found</p>'')
        (getPage ''/about'') ''about'' None) =
       (500, Some ''Error processing content request'')
   \<and> received (contentRoute2 exampleLib (answering 404 ''<p>Page not found</p>'')
        (getPage ''/about'') ''about'' ''/about'') =
       (404, Some ''<p>Page not found</p>'')
   \<and> received (contentRoute exampleLib aboutRoutes (answering 200 ''404'') (getPage ''/about'')
        ''about'' None) =
       (404, Some ''Not Found'')
   \<and> received (contentRoute exampleLib aboutRoutes (answering 200 ''500'') (getPage ''/missing'')
        ''missing'' None) =
       (500, Some ''Internal Server Error'')
   \<and> routeCache aboutRoutes ''constructor'' = None \<and> routePresent aboutRoutes ''constructor''
   \<and> received (contentRoute exampleLib aboutRoutes contentFrontend (getPage ''/constructor'')
        ''constructor'' None) =
       (500, Some ''Error processing content request'')
   \<and> received (contentRoute exampleLib aboutRoutes contentFrontend (getPage ''/about'') ''about'' None) =
       (200, Some ''<h1>About</h1>'')"
  by code_simp

text \<open>
  C5. The relevance that the search computes for a document is the sum, over the query
  tokens, of 3 when the token occurs in the lowercased title, 2 more when the lowercased
  title starts with the token, and 1 when the token occurs in the stored text. In every
  reachable state, for a query with at least one token and no token that names an
  inherited property of the index object, the search returns, and what it returns is the
  requested page of the list \<open>specRanked\<close>: the candidate documents that pass the type
  filter, each with that score, sorted by descending score. In that list a document whose
  title contains a query token comes before one whose title does not contain it, when
  every other query token scores the same for both.
\<close>

theorem C5_relevance_and_ranking:
  assumes "reachable s"
    and "ts = tokenizeText (queryOf req)" and "ts \<noteq> []"
    and "\<forall>u \<in> set ts. js_get (tokenizedIndex s) u \<noteq> Inherited"
  shows "relevanceOf ts doc = specRelevance ts doc
   \<and> search s req =
       Inr (paginate (specRanked s ts (typeOf req))
              (orDefault (page_param req) 1) (orDefault (pageSize_param req) 10))
   \<and> sorted_wrt (\<lambda>a b. r_relevance b \<le> r_relevance a) (specRanked s ts (typeOf req))
   \<and> (m < length (specRanked s ts (typeOf req)) \<and> n < length (specRanked s ts (typeOf req)) \<and>
        specRanked s ts (typeOf req) ! m = specResult ts a \<and>
        specRanked s ts (typeOf req) ! n = specResult ts b \<and> t \<in> set ts \<and>
        str_includes (toLowerCase (doc_title a)) t \<and>
        \<not> str_includes (toLowerCase (doc_title b)) t \<and>
        (\<forall>u \<in> set ts. u \<noteq> t \<longrightarrow> specTokenScore a u = specTokenScore b u) \<longrightarrow>
        m < n)"
proof (intro conjI impI)
  show "relevanceOf ts doc = specRelevance ts doc" by (rule relevanceOf_spec)
next
  from assms(1) have "indexSound s" by (rule reachable_sound)
  then have "rankedResults s ts (typeOf req) = Inr (specRanked s ts (typeOf req))"
    using assms(3,4) by (rule rankedResults_spec)
  moreover from assms(2,3) have "queryOf req \<noteq> []" by (auto simp: tokenizeText_Nil)
  ultimately show "search s req =
       Inr (paginate (specRanked s ts (typeOf req))
              (orDefault (page_param req) 1) (orDefault (pageSize_param req) 10))"
    using assms(2,3) by (simp add: search_def Let_def)
next
  show "sorted_wrt (\<lambda>a b. r_relevance b \<le> r_relevance a) (specRanked s ts (typeOf req))"
    by (rule specRanked_sorted)
next
  let ?rs = "specRanked s ts (typeOf req)"
  assume h: "m < length ?rs \<and> n < length ?rs \<and>
        ?rs ! m = specResult ts a \<and> ?rs ! n = specResult ts b \<and> t \<in> set ts \<and>
        str_includes (toLowerCase (doc_title a)) t \<and>
        \<not> str_includes (toLowerCase (doc_title b)) t \<and>
        (\<forall>u \<in> set ts. u \<noteq> t \<longrightarrow> specTokenScore a u = specTokenScore b u)"
  then have "specRelevance ts b < specRelevance ts a"
    by (intro specRelevance_title_wins [of t]) simp_all
  with h have lt: "r_relevance (?rs ! n) < r_relevance (?rs ! m)"
    by (simp add: specResult_def)
  have "sorted_wrt (\<lambda>a b. r_relevance b \<le> r_relevance a) ?rs"
    by (rule specRanked_sorted)
  moreover from h have "m < length ?rs" and "n < length ?rs" by simp_all
  ultimately show "m < n" using lt by (rule sorted_desc_index)
qed

theorem C5_relevance_witness:
  "search rankIndex (query ''apple'') =
     Inr (paginate (specRanked rankIndex [''apple''] None) 1 10)
   \<and> summary (search rankIndex (query ''apple'')) = Inr ([''t1'', ''t2''], 2, 1)
   \<and> map_sum id (\<lambda>resp. map r_relevance (resp_results resp)) (search rankIndex (query ''apple'')) =
       Inr [6, 1]
   \<and> specCandidates (tokenizedIndex rankIndex) [''apple''] = [''t2'', ''t1'']
   \<and> specRanked rankIndex [''apple''] None ! 0 =
       specResult [''apple''] (newDocument (simplePage ''t1'' ''apple guide'' ''fruit'' 0))
   \<and> specRanked rankIndex [''apple''] None ! 1 =
       specResult [''apple''] (newDocument (simplePage ''t2'' ''recipes'' ''apple crumble'' 0))
   \<and> relevanceOf [''apple''] (newDocument (simplePage ''t1'' ''apple guide'' ''fruit'' 0)) = 6
   \<and> (0::nat) < 1"
proof -
  define a where "a = newDocument (simplePage ''t1'' ''apple guide'' ''fruit'' 0)"
  define b where "b = newDocument (simplePage ''t2'' ''recipes'' ''apple crumble'' 0)"
  define rs where "rs = specRanked rankIndex [''apple''] None"
  have r: "reachable rankIndex"
    unfolding rankIndex_def by (rule indexAll_reachable) (rule reachable.start)
  have ts: "[''apple''] = tokenizeText (queryOf (query ''apple''))" by code_simp
  have ne: "[''apple''] \<noteq> ([] :: string list)" by simp
  have own: "\<forall>u \<in> set [''apple'']. js_get (tokenizedIndex rankIndex) u \<noteq> Inherited"
    by code_simp
  have ty: "typeOf (query ''apple'') = None" by (simp add: typeOf_def query_def)
  have pg: "orDefault (page_param (query ''apple'')) 1 = 1"
    "orDefault (pageSize_param (query ''apple'')) 10 = 10"
    by (simp_all add: orDefault_def query_def)
  have 1: "summary (search rankIndex (query ''apple'')) = Inr ([''t1'', ''t2''], 2, 1)"
    by code_simp
  have 2: "map_sum id (\<lambda>resp. map r_relevance (resp_results resp))
             (search rankIndex (query ''apple'')) = Inr [6, 1]"
    by code_simp
  have 3: "specCandidates (tokenizedIndex rankIndex) [''apple''] = [''t2'', ''t1'']"
    by code_simp
  have 4: "specRanked rankIndex [''apple''] None ! 0 =
       specResult [''apple''] (newDocument (simplePage ''t1'' ''apple guide'' ''fruit'' 0))"
    by code_simp
  have 5: "specRanked rankIndex [''apple''] None ! 1 =
       specResult [''apple''] (newDocument (simplePage ''t2'' ''recipes'' ''apple crumble'' 0))"
    by code_simp
  have 6: "length (specRanked rankIndex [''apple''] None) = 2" by code_simp
  have 7: "str_includes (toLowerCase (doc_title a)) ''apple''" unfolding a_def by code_simp
  have 8: "\<not> str_includes (toLowerCase (doc_title b)) ''apple''" unfolding b_def by code_simp
  have hyp: "0 < length rs \<and> 1 < length rs \<and>
        rs ! 0 = specResult [''apple''] a \<and> rs ! 1 = specResult [''apple''] b \<and>
        ''apple'' \<in> set [''apple''] \<and>
        str_includes (toLowerCase (doc_title a)) ''apple'' \<and>
        \<not> str_includes (toLowerCase (doc_title b)) ''apple'' \<and>
        (\<forall>u \<in> set [''apple'']. u \<noteq> ''apple'' \<longrightarrow> specTokenScore a u = specTokenScore b u)"
    using 4 5 6 7 8 unfolding rs_def a_def b_def by simp
  from C5_relevance_and_ranking [OF r ts ne own, of a 0 1 a b "''apple''"]
  have "search rankIndex (query ''apple'') =
       Inr (paginate (specRanked rankIndex [''apple''] (typeOf (query ''apple'')))
              (orDefault (page_param (query ''apple'')) 1)
              (orDefault (pageSize_param (query ''apple'')) 10))"
    by (rule conjunct2 [THEN conjunct1])
  then have s: "search rankIndex (query ''apple'') =
     Inr (paginate (specRanked rankIndex [''apple''] None) 1 10)"
    unfolding ty pg .
  from C5_relevance_and_ranking [OF r ts ne own, of a 0 1 a b "''apple''"]
  have "relevanceOf [''apple''] a = specRelevance [''apple''] a"
    by (rule conjunct1)
  moreover have "specRelevance [''apple''] a = 6" unfolding a_def by code_simp
  ultimately have rel: "relevanceOf [''apple''] (newDocument (simplePage ''t1'' ''apple guide'' ''fruit'' 0)) = 6"
    unfolding a_def by simp
  from C5_relevance_and_ranking [OF r ts ne own, of a 0 1 a b "''apple''"]
  have "0 < length rs \<and> 1 < length rs \<and>
        rs ! 0 = specResult [''apple''] a \<and> rs ! 1 = specResult [''apple''] b \<and>
        ''apple'' \<in> set [''apple''] \<and>
        str_includes (toLowerCase (doc_title a)) ''apple'' \<and>
        \<not> str_includes (toLowerCase (doc_title b)) ''apple'' \<and>
        (\<forall>u \<in> set [''apple'']. u \<noteq> ''apple'' \<longrightarrow> specTokenScore a u = specTokenScore b u)
      \<longrightarrow> (0::nat) < 1"
    unfolding ty rs_def by (rule conjunct2 [THEN conjunct2, THEN conjunct2])
  from this hyp have c: "(0::nat) < 1" by (rule mp)
  from s 1 2 3 4 5 rel c show ?thesis by blast
qed

end
